theory Spec2Isabelle
  imports Main "HOL-Library.Word" "HOL-Library.Product_Lexorder"
begin

unbundle bit_operations_syntax

section \<open>Common definitions\<close>

text \<open>
  The C++ sources abort on a failed \<open>assert\<close> and have undefined behaviour on an
  out-of-range subscript, a null dereference or the read of a member that was never
  assigned. Each of these is a value of \<open>error\<close> in the model, so that no HOL default
  value stands in for them.
\<close>

datatype error = OutOfBounds | NullPointer | AssertionFailed | Uninitialised

section \<open>Bitvector (lib/utils/bitvector.hpp)\<close>

text \<open>
  \<open>IntType\<close> is \<open>uint64_t\<close> and \<open>IntSize = sizeof(IntType) * 8\<close>. Indices are
  \<open>size_t\<close> values; the accessors only compare, divide and take remainders, so they
  are natural numbers here. The members \<open>size_\<close> and \<open>data_\<close> are the fields
  \<open>bv_size\<close> and \<open>bv_data\<close> (a name cannot end in an underscore here). The table
  \<open>bit_mask_\<close> is defined in bitvector.cpp, which is not among the sources: the
  accessors take it as the parameter \<open>bit_mask\<close>.
\<close>

type_synonym IntType = "64 word"

definition IntSize :: nat where
  "IntSize = 64"

record Bitvector =
  bv_size :: nat
  bv_data :: "IntType list"

text \<open>\<open>data_[k] = f(data_[k])\<close>; a subscript outside the vector is \<open>OutOfBounds\<close>.\<close>

definition modify_word :: "Bitvector \<Rightarrow> nat \<Rightarrow> (IntType \<Rightarrow> IntType) \<Rightarrow> error + Bitvector" where
  "modify_word b k f =
     (if k < length (bv_data b)
      then Inr (b\<lparr>bv_data := (bv_data b)[k := f (bv_data b ! k)]\<rparr>)
      else Inl OutOfBounds)"

definition Get :: "(nat \<Rightarrow> IntType) \<Rightarrow> Bitvector \<Rightarrow> nat \<Rightarrow> error + bool" where
  "Get bit_mask b index =
     (if index \<ge> bv_size b then Inr False
      else if index div IntSize < length (bv_data b)
      then Inr ((bv_data b ! (index div IntSize)) AND bit_mask (index mod IntSize) \<noteq> 0)
      else Inl OutOfBounds)"

definition Set :: "(nat \<Rightarrow> IntType) \<Rightarrow> Bitvector \<Rightarrow> nat \<Rightarrow> error + Bitvector" where
  "Set bit_mask b index =
     (if index \<ge> bv_size b then Inr b
      else modify_word b (index div IntSize) (\<lambda>w. w OR bit_mask (index mod IntSize)))"

definition Unset :: "(nat \<Rightarrow> IntType) \<Rightarrow> Bitvector \<Rightarrow> nat \<Rightarrow> error + Bitvector" where
  "Unset bit_mask b index =
     (if index \<ge> bv_size b then Inr b
      else modify_word b (index div IntSize) (\<lambda>w. w AND NOT (bit_mask (index mod IntSize))))"

definition Flip :: "(nat \<Rightarrow> IntType) \<Rightarrow> Bitvector \<Rightarrow> nat \<Rightarrow> error + Bitvector" where
  "Flip bit_mask b index =
     (if index \<ge> bv_size b then Inr b
      else modify_word b (index div IntSize) (\<lambda>w. w XOR bit_mask (index mod IntSize)))"

section \<open>Lexer tokens and bracket validation (lib/utils/lexer.cpp)\<close>

text \<open>
  Modelled from the spec: the class \<open>LexerToken\<close> and the enumeration
  \<open>LexerTokenType\<close> are declared in lexer.hpp, which is not among the sources. The
  spec: each token carries its type, its source line and column, and its lexeme; the
  types are symbol, number, string, bracket, operator, comment, tag and error (the
  sources also use \<open>kUnknown\<close> and \<open>kWhite\<close>). \<open>PushToken\<close> derives line and
  column from the start offset it is given, and the record keeps that offset.
\<close>

datatype LexerTokenType =
  kError | kUnknown | kWhite | kComment | kSymbol | kNumber | kString | kBracket | kOperator | kTag

record LexerToken =
  tk_type :: LexerTokenType
  tk_start :: nat
  tk_value :: string

definition IsError :: "LexerToken \<Rightarrow> bool" where
  "IsError t = (tk_type t = kError)"

definition IsBracket :: "LexerToken \<Rightarrow> bool" where
  "IsBracket t = (tk_type t = kBracket)"

text \<open>\<open>t.value()[0]\<close>: subscript 0 of an empty \<open>std::string\<close> is the terminating NUL.\<close>

definition first_char :: "string \<Rightarrow> char" where
  "first_char v = (case v of [] \<Rightarrow> CHR 0x00 | c # _ \<Rightarrow> c)"

text \<open>
  The loop of \<open>Lexer::ValidateBrackets\<close> over \<open>tokens_\<close>; \<open>stk\<close> is the
  \<open>std::stack\<close> of characters with its top at the head of the list.
\<close>

fun ValidateBrackets_loop :: "char list \<Rightarrow> LexerToken list \<Rightarrow> bool" where
  "ValidateBrackets_loop stk [] = True"
| "ValidateBrackets_loop stk (t # ts) =
     (if \<not> IsBracket t then ValidateBrackets_loop stk ts
      else
        let c = first_char (tk_value t);
            stk = (if c = CHR ''('' then CHR '')'' # stk else stk);
            stk = (if c = CHR ''['' then CHR '']'' # stk else stk);
            stk = (if c = CHR ''{'' then CHR ''}'' # stk else stk);
            stk = (if c = CHR ''<'' then CHR ''>'' # stk else stk)
        in
          if c = CHR '')'' \<or> c = CHR '']'' \<or> c = CHR ''}'' \<or> c = CHR ''>''
          then (case stk of
                  [] \<Rightarrow> False
                | tp # rest \<Rightarrow> if c \<noteq> tp then False else ValidateBrackets_loop rest ts)
          else ValidateBrackets_loop stk ts)"

definition ValidateBrackets :: "LexerToken list \<Rightarrow> bool" where
  "ValidateBrackets tokens = ValidateBrackets_loop [] tokens"

section \<open>Newick serialization (src/tree/newick_processor.cpp)\<close>

text \<open>
  Modelled from the spec: \<open>NewickBrokerElement\<close> and \<open>NewickBroker\<close> are declared
  in newick_broker.hpp, which is not among the sources. The spec: an element holds a
  name, a branch length, an ordered list of comment strings, an ordered list of tag
  strings and a depth; a broker is an ordered sequence of elements. The serializer also
  calls \<open>rank()\<close> on an element, which is the field \<open>rank\<close>. The branch length is a
  \<open>double\<close>: its type is the parameter \<open>'d\<close>, and \<open>std::to_string\<close> on it is the
  parameter \<open>to_string\<close>. \<open>StringReplaceAll\<close> is declared in utils.hpp and defined
  elsewhere: it is a parameter as well.
\<close>

record 'd NewickBrokerElement =
  name :: string
  branch_length :: 'd
  comments :: "string list"
  tags :: "string list"
  depth :: int
  rank :: int

type_synonym 'd NewickBroker = "'d NewickBrokerElement list"

text \<open>
  The static members of \<open>NewickProcessor\<close>. newick_processor.cpp defines the four
  print flags, and its serializer reads no other static. The header
  lib/tree/newick_processor.hpp, of a later revision of the class, declares the default
  names and \<open>precision\<close> as well; the file that defines them and the serializer of
  that revision are not among the sources. They are fields here, so that a theorem can
  say that the text does not depend on them.
\<close>

record NewickProcessor =
  default_leaf_name :: string
  default_internal_name :: string
  default_root_name :: string
  use_default_names :: bool
  print_names :: bool
  print_branch_lengths :: bool
  print_comments :: bool
  print_tags :: bool
  precision :: int

definition ElementToString ::
  "('d \<Rightarrow> string) \<Rightarrow> (string \<Rightarrow> string \<Rightarrow> string \<Rightarrow> string) \<Rightarrow> NewickProcessor \<Rightarrow>
   'd NewickBrokerElement \<Rightarrow> string" where
  "ElementToString to_string StringReplaceAll np bn =
     (let res = [];
          res = (if print_names np then res @ StringReplaceAll (name bn) '' '' ''_'' else res);
          res = (if print_branch_lengths np
                 then res @ '':'' @ to_string (branch_length bn) else res);
          res = (if print_comments np
                 then foldl (\<lambda>r c. r @ ''['' @ c @ '']'') res (comments bn) else res);
          res = (if print_tags np
                 then foldl (\<lambda>r t. r @ ''{'' @ t @ ''}'') res (tags bn) else res)
      in res)"

text \<open>The output loop of \<open>ToStringRec\<close>: a comma before every child but the first.\<close>

fun join_children :: "string list \<Rightarrow> string" where
  "join_children [] = []"
| "join_children [c] = c"
| "join_children (c # cs) = c @ '','' @ join_children cs"

text \<open>
  \<open>ToStringRec\<close> and its loop over the later broker elements. \<open>children\<close> is the
  deque, front first; \<open>push_front\<close> is \<open>#\<close>. \<open>broker[pos]\<close> outside the broker is
  \<open>OutOfBounds\<close>.
\<close>

function ToStringRec ::
    "('d \<Rightarrow> string) \<Rightarrow> (string \<Rightarrow> string \<Rightarrow> string \<Rightarrow> string) \<Rightarrow> NewickProcessor \<Rightarrow>
     'd NewickBroker \<Rightarrow> nat \<Rightarrow> error + string"
  and ToStringRec_children ::
    "('d \<Rightarrow> string) \<Rightarrow> (string \<Rightarrow> string \<Rightarrow> string \<Rightarrow> string) \<Rightarrow> NewickProcessor \<Rightarrow>
     'd NewickBroker \<Rightarrow> nat \<Rightarrow> nat \<Rightarrow> string list \<Rightarrow> error + string list"
where
  "ToStringRec to_string sra np broker pos =
     (if pos \<ge> length broker then Inl OutOfBounds
      else if rank (broker ! pos) = 0
      then Inr (ElementToString to_string sra np (broker ! pos))
      else
        (case ToStringRec_children to_string sra np broker pos (pos + 1) [] of
           Inl e \<Rightarrow> Inl e
         | Inr children \<Rightarrow>
             Inr (''('' @ join_children children @ '')''
                  @ ElementToString to_string sra np (broker ! pos))))"
| "ToStringRec_children to_string sra np broker pos i children =
     (if i < length broker \<and> depth (broker ! i) > depth (broker ! pos)
      then
        (if depth (broker ! i) > depth (broker ! pos) + 1
         then ToStringRec_children to_string sra np broker pos (i + 1) children
         else
           (case ToStringRec to_string sra np broker i of
              Inl e \<Rightarrow> Inl e
            | Inr s \<Rightarrow> ToStringRec_children to_string sra np broker pos (i + 1) (s # children)))
      else Inr children)"
  by pat_completeness auto
termination
  by (relation "measure (\<lambda>x. case x of
        Inl (_, _, _, broker, pos) \<Rightarrow> 2 * (length broker - pos) + 1
      | Inr (_, _, _, broker, _, i, _) \<Rightarrow> 2 * (length broker - i) + 2)") auto

declare ToStringRec.simps [simp del] ToStringRec_children.simps [simp del]

text \<open>
  For the examples: \<open>std::to_string\<close> on the branch lengths 0, 1 and 2 (six decimals,
  as \<open>%f\<close> prints them), and \<open>StringReplaceAll\<close> for a search string of one
  character.
\<close>

definition example_to_string :: "nat \<Rightarrow> string" where
  "example_to_string n =
     (if n = 0 then ''0.000000'' else if n = 1 then ''1.000000'' else ''2.000000'')"

definition StringReplaceAll_char :: "string \<Rightarrow> string \<Rightarrow> string \<Rightarrow> string" where
  "StringReplaceAll_char txt search replace =
     concat (map (\<lambda>c. if [c] = search then replace else [c]) txt)"

text \<open>A broker and the statics, with the precision left open.\<close>

definition example_broker :: "nat NewickBroker" where
  "example_broker =
     [\<lparr>name = ''The Root'', branch_length = 0, comments = [], tags = [], depth = 0, rank = 2\<rparr>,
      \<lparr>name = ''A'', branch_length = 1, comments = [], tags = [], depth = 1, rank = 0\<rparr>,
      \<lparr>name = ''B'', branch_length = 2, comments = [], tags = [], depth = 1, rank = 0\<rparr>]"

definition example_statics :: "int \<Rightarrow> NewickProcessor" where
  "example_statics p =
     \<lparr>default_leaf_name = ''Leaf Node'', default_internal_name = ''Internal Node'',
      default_root_name = ''Root Node'', use_default_names = False,
      print_names = True, print_branch_lengths = True, print_comments = False,
      print_tags = False, precision = p\<rparr>"


text \<open>The tokens of the text \<open>(A,B;\<close>: a bracket, a symbol, an operator, a symbol, an operator.\<close>

definition tokens_A_B :: "LexerToken list" where
  "tokens_A_B =
     [\<lparr>tk_type = kBracket, tk_start = 0, tk_value = ''(''\<rparr>,
      \<lparr>tk_type = kSymbol, tk_start = 1, tk_value = ''A''\<rparr>,
      \<lparr>tk_type = kOperator, tk_start = 2, tk_value = '',''\<rparr>,
      \<lparr>tk_type = kSymbol, tk_start = 3, tk_value = ''B''\<rparr>,
      \<lparr>tk_type = kOperator, tk_start = 4, tk_value = '';''\<rparr>]"

section \<open>Links of a node (lib/tree/tree_node.hpp, lib/tree/tree_node.tpp)\<close>

text \<open>
  Modelled from the spec: \<open>TreeLink\<close> is declared in tree_link.hpp, which is not
  among the sources. The spec: a link holds a reference to its next link in the list of
  the links of its node. A link is addressed by a natural number; a link pointer is a
  \<open>nat option\<close>, with \<open>None\<close> for \<open>nullptr\<close>. \<open>TreeLink::Next()\<close> returns the
  reference: the parameter \<open>Next\<close> is the heap of these members. Dereferencing \<open>nullptr\<close> is \<open>NullPointer\<close>. The do-while
  loop of \<open>TreeNode::Rank\<close> and the iteration over the links need not end, so both are
  partial functions: \<open>None\<close> is a run that never returns. The counter \<open>rank\<close> is an
  \<open>int\<close> of the source and an unbounded integer here (a node would need more than
  \<open>2^31\<close> links for the difference to show).
\<close>

partial_function (option) Rank_loop ::
  "(nat \<Rightarrow> nat option) \<Rightarrow> nat option \<Rightarrow> int \<Rightarrow> nat \<Rightarrow> (error + int) option" where
  "Rank_loop Next link0 rk link =
     (if Next link \<noteq> link0
      then (if Next link = None then Some (Inl NullPointer)
            else Rank_loop Next link0 (rk + 1) (the (Next link)))
      else Some (Inr (rk + 1)))"

text \<open>\<open>TreeNode::Rank\<close>, for a node whose member \<open>link_\<close> is \<open>link0\<close>.\<close>

definition Rank :: "(nat \<Rightarrow> nat option) \<Rightarrow> nat option \<Rightarrow> (error + int) option" where
  "Rank Next link0 =
     (case link0 of None \<Rightarrow> Some (Inl NullPointer) | Some l \<Rightarrow> Rank_loop Next link0 (- 1) l)"

text \<open>\<open>TreeNodeIteratorLinks\<close>: the members \<open>link_\<close> and \<open>start_\<close>.\<close>

record IteratorLinks =
  it_link :: "nat option"
  it_start :: "nat option"

definition BeginLinks :: "nat option \<Rightarrow> IteratorLinks" where
  "BeginLinks link0 = \<lparr>it_link = link0, it_start = link0\<rparr>"

definition EndLinks :: IteratorLinks where
  "EndLinks = \<lparr>it_link = None, it_start = None\<rparr>"

text \<open>\<open>operator ==\<close> compares the members \<open>link_\<close> only.\<close>

definition iter_eq :: "IteratorLinks \<Rightarrow> IteratorLinks \<Rightarrow> bool" where
  "iter_eq a other = (it_link other = it_link a)"

text \<open>\<open>operator ++\<close>.\<close>

definition iter_incr :: "(nat \<Rightarrow> nat option) \<Rightarrow> IteratorLinks \<Rightarrow> error + IteratorLinks" where
  "iter_incr Next it =
     (case it_link it of
        None \<Rightarrow> Inl NullPointer
      | Some l \<Rightarrow>
          (let link = Next l;
               link = (if link = it_start it then None else link)
           in Inr (it\<lparr>it_link := link\<rparr>)))"

text \<open>
  \<open>for (it = BeginLinks(); it != EndLinks(); ++it)\<close>, collecting \<open>it.Link()\<close> at
  every round.
\<close>

partial_function (option) collect_links ::
  "(nat \<Rightarrow> nat option) \<Rightarrow> IteratorLinks \<Rightarrow> nat option list \<Rightarrow> (error + nat option list) option" where
  "collect_links Next it acc =
     (if \<not> iter_eq it EndLinks
      then (if isl (iter_incr Next it) then Some (Inl (projl (iter_incr Next it)))
            else collect_links Next (projr (iter_incr Next it)) (acc @ [it_link it]))
      else Some (Inr acc))"

definition NodeLinks :: "(nat \<Rightarrow> nat option) \<Rightarrow> nat option \<Rightarrow> (error + nat option list) option" where
  "NodeLinks Next link0 = collect_links Next (BeginLinks link0) []"

text \<open>\<open>follow Next k l\<close>: the link reached from \<open>l\<close> by \<open>k\<close> calls of \<open>Next()\<close>.\<close>

fun follow :: "(nat \<Rightarrow> nat option) \<Rightarrow> nat \<Rightarrow> nat \<Rightarrow> nat option" where
  "follow Next 0 l = Some l"
| "follow Next (Suc k) l = (case Next l of None \<Rightarrow> None | Some l' \<Rightarrow> follow Next k l')"

text \<open>Three links in a ring: a node with two children below the root.\<close>

definition ring3 :: "nat \<Rightarrow> nat option" where
  "ring3 l = (if l = 0 then Some 1 else if l = 1 then Some 2 else if l = 2 then Some 0 else None)"

section \<open>Plausibility check (lib/plausibility/plausibility.cpp)\<close>

subsection \<open>Trees, traversals and the RMQ structure\<close>

text \<open>
  \<open>Plausibility::SpiderpigFunction\<close> is among the sources; the class \<open>Tree\<close>, its
  iterators and \<open>RMQ_succinct\<close> are not. The function sees a tree only through
  \<open>BeginPreorder\<close>, \<open>BeginEulertour\<close>, \<open>NodeCount\<close>, \<open>LeafCount\<close> and, at a
  node, \<open>IsLeaf\<close>, \<open>name\<close> and \<open>preorder_id\<close>. Modelled from the spec: a tree
  holds a distinguished root, so it has at least one node; it is a rooted tree of nodes
  here, each with its index (\<open>TreeNode::Index\<close>) and its name. The trees are the ones
  \<open>NewickProcessor::FromFile\<close> has built from the two files.
\<close>

datatype Tree = Node (node_index: nat) (node_name: string) (node_children: "Tree list")

text \<open>
  Modelled from the spec: \<open>TreeLink::IsLeaf\<close>, which \<open>TreeNode::IsLeaf\<close> calls, is
  in tree_link.hpp, not among the sources. The spec: a node is a leaf iff its rank is 0,
  that is, it has no children.
\<close>

definition IsLeaf :: "Tree \<Rightarrow> bool" where
  "IsLeaf n = (node_children n = [])"

text \<open>
  Modelled from the spec: the preorder iterator of \<open>Tree\<close> (\<open>BeginPreorder\<close> to
  \<open>EndPreorder\<close>), not among the sources. The spec: it visits a node before its
  children.
\<close>

fun Preorder_nodes :: "Tree \<Rightarrow> Tree list" where
  "Preorder_nodes (Node i n cs) = Node i n cs # concat (map Preorder_nodes cs)"

text \<open>
  Modelled from the spec: the Euler tour iterator of \<open>Tree\<close> (\<open>BeginEulertour\<close> to
  \<open>EndEulertour\<close>), not among the sources. The spec: the tour traverses every edge
  twice, once per direction, and a node appears once per incident edge. It starts at
  the root, which stands before each of its subtrees; a node below the root stands where
  the tour enters it and after each of its subtrees. A tree of one node has no edge;
  its tour visits the node once, through the one link every node has.
\<close>

fun Eulertour_below :: "Tree \<Rightarrow> Tree list" where
  "Eulertour_below (Node i n cs) =
     Node i n cs # concat (map (\<lambda>c. Eulertour_below c @ [Node i n cs]) cs)"

definition Eulertour_nodes :: "Tree \<Rightarrow> Tree list" where
  "Eulertour_nodes t =
     (if node_children t = [] then [t]
      else concat (map (\<lambda>c. t # Eulertour_below c) (node_children t)))"

text \<open>
  Modelled from the spec: \<open>Tree::NodeCount\<close> and \<open>Tree::LeafCount\<close>, not among the
  sources: the number of nodes, and of those that are leaves.
\<close>

definition NodeCount :: "Tree \<Rightarrow> nat" where
  "NodeCount t = length (Preorder_nodes t)"

definition LeafCount :: "Tree \<Rightarrow> nat" where
  "LeafCount t = length (filter IsLeaf (Preorder_nodes t))"

text \<open>
  Modelled from the spec: \<open>RMQ_succinct::query\<close>, not among the sources, for the
  examples. The spec: for \<open>i \<le> j\<close> the query returns the index in \<open>[i, j]\<close> that
  holds the minimum, and \<open>i\<close> for \<open>i = j\<close>. The functions below take the query as the
  parameter \<open>rmq_query\<close>, applied to the array, the length given to the constructor and
  the two indices.
\<close>

definition RMQ_scan :: "int list \<Rightarrow> nat \<Rightarrow> int \<Rightarrow> int \<Rightarrow> int" where
  "RMQ_scan a n i j =
     int (fold (\<lambda>k best. if a ! k < a ! best then k else best) [nat i + 1 ..< nat j + 1] (nat i))"

subsection \<open>SpiderpigFunction\<close>

text \<open>
  \<open>size_t\<close> values are natural numbers. The sizes of the vectors and the node counts
  are far below \<open>2^64\<close>; the one place where the arithmetic of the function can wrap
  around is a subtraction below zero, which \<open>size_t_sub\<close> writes out.
\<close>

definition size_t_sub :: "nat \<Rightarrow> nat \<Rightarrow> nat" where
  "size_t_sub a b = (if a < b then 2 ^ 64 + a - b else a - b)"

text \<open>
  \<open>m[k]\<close> on a \<open>std::map\<close> with \<open>int\<close> values: a key that is absent is inserted
  with the value 0, which is returned.
\<close>

definition map_subscript :: "('k \<rightharpoonup> int) \<Rightarrow> 'k \<Rightarrow> int \<times> ('k \<rightharpoonup> int)" where
  "map_subscript m k = (case m k of Some v \<Rightarrow> (v, m) | None \<Rightarrow> (0, m(k \<mapsto> 0)))"

text \<open>
  The first loop: the member \<open>preorder_id\<close> of every node of the reference tree (kept
  in \<open>pid\<close>, by node index) and the map from leaf names to preorder ids.
\<close>

fun number_preorder ::
  "Tree list \<Rightarrow> (nat \<rightharpoonup> int) \<times> (string \<rightharpoonup> int) \<times> int \<Rightarrow> (nat \<rightharpoonup> int) \<times> (string \<rightharpoonup> int) \<times> int" where
  "number_preorder [] st = st"
| "number_preorder (node # nodes) (pid, reference_map, c) =
     number_preorder nodes
       (pid(node_index node \<mapsto> c),
        (if IsLeaf node then reference_map(node_name node \<mapsto> c) else reference_map),
        c + 1)"

text \<open>
  The second loop, over the Euler tour. Reading \<open>preorder_id\<close> of a node that the
  first loop has not numbered is \<open>Uninitialised\<close>.
\<close>

fun collect_euler ::
  "(nat \<rightharpoonup> int) \<Rightarrow> Tree list \<Rightarrow> int list \<times> (int \<rightharpoonup> int) \<times> int \<Rightarrow>
   error + int list \<times> (int \<rightharpoonup> int) \<times> int" where
  "collect_euler pid [] st = Inr st"
| "collect_euler pid (node # nodes) (euler_ids, preorder_to_euler_map, c) =
     (case pid (node_index node) of
        None \<Rightarrow> Inl Uninitialised
      | Some p_id \<Rightarrow>
          collect_euler pid nodes
            (euler_ids @ [p_id],
             (if preorder_to_euler_map p_id \<noteq> None then preorder_to_euler_map
              else preorder_to_euler_map(p_id \<mapsto> c)),
             c + 1))"

text \<open>The loop over the small tree: one entry for each of its leaves.\<close>

fun collect_leaves ::
  "Tree list \<Rightarrow> (string \<rightharpoonup> int) \<times> (int \<times> bool) list \<Rightarrow> (string \<rightharpoonup> int) \<times> (int \<times> bool) list" where
  "collect_leaves [] st = st"
| "collect_leaves (node # nodes) (reference_map, preorder_ids) =
     (if IsLeaf node
      then (let (v, reference_map) = map_subscript reference_map (node_name node)
            in collect_leaves nodes (reference_map, preorder_ids @ [(v, True)]))
      else collect_leaves nodes (reference_map, preorder_ids))"

text \<open>
  The state of the query loop: the two containers it changes, and the calls of
  \<open>rmq.query\<close> it has made so far, in order (the list \<open>queries\<close> is not a variable
  of the source).
\<close>

record query_state =
  preorder_to_euler_map :: "int \<rightharpoonup> int"
  preorder_ids :: "(int \<times> bool) list"
  queries :: "(int \<times> int) list"

text \<open>One round of the query loop. A subscript outside a vector is \<open>OutOfBounds\<close>.\<close>

definition query_step ::
  "(int \<Rightarrow> int \<Rightarrow> int) \<Rightarrow> int list \<Rightarrow> nat \<Rightarrow> query_state \<Rightarrow> error + query_state" where
  "query_step query euler_array i st =
     (if i + 1 < length (preorder_ids st)
      then
        (let (euler_idx, m) = map_subscript (preorder_to_euler_map st) (fst (preorder_ids st ! i));
             (euler_idy, m) = map_subscript m (fst (preorder_ids st ! (i + 1)));
             euler_res = query euler_idx euler_idy
         in if 0 \<le> euler_res \<and> euler_res < int (length euler_array)
            then Inr \<lparr>preorder_to_euler_map = m,
                      preorder_ids = preorder_ids st @ [(euler_array ! nat euler_res, False)],
                      queries = queries st @ [(euler_idx, euler_idy)]\<rparr>
            else Inl OutOfBounds)
      else Inl OutOfBounds)"

function query_loop ::
  "(int \<Rightarrow> int \<Rightarrow> int) \<Rightarrow> int list \<Rightarrow> nat \<Rightarrow> nat \<Rightarrow> query_state \<Rightarrow> error + query_state" where
  "query_loop query euler_array bound i st =
     (if i < bound
      then (case query_step query euler_array i st of
              Inl e \<Rightarrow> Inl e
            | Inr st' \<Rightarrow> query_loop query euler_array bound (i + 1) st')
      else Inr st)"
  by pat_completeness auto
termination
  by (relation "measure (\<lambda>(query, euler_array, bound, i, st). bound - i)") auto

declare query_loop.simps [simp del]

text \<open>What the function has computed when it returns.\<close>

record plausibility_result =
  reference_map :: "string \<rightharpoonup> int"
  euler_ids :: "int list"
  rmq_length :: nat
  final :: query_state

definition SpiderpigFunction ::
  "(int list \<Rightarrow> nat \<Rightarrow> int \<Rightarrow> int \<Rightarrow> int) \<Rightarrow> Tree \<Rightarrow> Tree \<Rightarrow> error + plausibility_result" where
  "SpiderpigFunction rmq_query reference_tree small_tree =
     (let (pid, rmap, c) = number_preorder (Preorder_nodes reference_tree) (Map.empty, Map.empty, 0)
      in case collect_euler pid (Eulertour_nodes reference_tree) ([], Map.empty, 0) of
           Inl e \<Rightarrow> Inl e
         | Inr (euler, p2e, c) \<Rightarrow>
             (if euler = [] then Inl OutOfBounds
              else
                let n = size_t_sub (4 * NodeCount reference_tree) 5;
                    query = rmq_query euler n;
                    (rmap, ids) = collect_leaves (Preorder_nodes small_tree) (rmap, []);
                    ids = sort ids
                in case query_loop query euler (size_t_sub (LeafCount small_tree) 1) 0
                          \<lparr>preorder_to_euler_map = p2e, preorder_ids = ids, queries = []\<rparr> of
                     Inl e \<Rightarrow> Inl e
                   | Inr st \<Rightarrow>
                       (if length (preorder_ids st) = size_t_sub (2 * LeafCount small_tree) 1
                        then Inr \<lparr>reference_map = rmap, euler_ids = euler, rmq_length = n,
                                  final = st\<lparr>preorder_ids := sort (preorder_ids st)\<rparr>\<rparr>
                        else Inl AssertionFailed)))"

text \<open>The map from leaf names to preorder ids that the first loop builds.\<close>

definition reference_leaf_ids :: "Tree \<Rightarrow> (string \<rightharpoonup> int)" where
  "reference_leaf_ids reference_tree =
     fst (snd (number_preorder (Preorder_nodes reference_tree) (Map.empty, Map.empty, 0)))"

text \<open>
  The reference tree \<open>((A,B),(C,D));\<close> and the small trees \<open>(A,B);\<close> and
  \<open>(A,X);\<close>. The reference tree has no leaf \<open>X\<close>.
\<close>

definition reference_ABCD :: Tree where
  "reference_ABCD =
     Node 0 '''' [Node 1 '''' [Node 2 ''A'' [], Node 3 ''B'' []],
                 Node 4 '''' [Node 5 ''C'' [], Node 6 ''D'' []]]"

definition small_AB :: Tree where
  "small_AB = Node 0 '''' [Node 1 ''A'' [], Node 2 ''B'' []]"

definition small_AX :: Tree where
  "small_AX = Node 0 '''' [Node 1 ''A'' [], Node 2 ''X'' []]"

section \<open>Lexer (lib/utils/lexer.cpp, lib/tree/newick_processor.hpp)\<close>

subsection \<open>The lexer object and its accessors\<close>

text \<open>
  The scanners of \<open>Lexer\<close> are virtual, and \<open>NewickLexer\<close> overrides
  \<open>ScanComment\<close>, \<open>ScanNumber\<close> and \<open>ScanTag\<close>: \<open>lx_class\<close> says which of the
  two classes an object belongs to. The record holds the members the scanners use: the
  table of \<open>GetCharType\<close>/\<open>SetCharType\<close>, the flags, the text (\<open>text_\<close>, with
  \<open>len_\<close> its length), the position \<open>itr_\<close> and the token list \<open>tokens_\<close>.
\<close>

datatype LexerClass = BaseLexer | NewickLexer

record Lexer =
  lx_class :: LexerClass
  start_char_table :: "char \<Rightarrow> LexerTokenType"
  include_whitespace :: bool
  include_comments :: bool
  glue_sign_to_number :: bool
  trim_quotation_marks :: bool
  use_string_escape :: bool
  use_string_doubled_quotes :: bool
  include_tags :: bool
  lx_text :: string
  lx_itr :: nat
  lx_tokens :: "LexerToken list"

text \<open>
  Modelled from the spec: the inline accessors of \<open>Lexer\<close> in lexer.hpp, which is not
  among the sources (\<open>Init\<close>, \<open>IsEnd\<close>, \<open>GetChar\<close>, \<open>GetCharType\<close>,
  \<open>GetPosition\<close>, \<open>NextChar\<close>, \<open>GetSubstr\<close>, \<open>PushToken\<close>, \<open>CharIsDigit\<close>,
  \<open>CharIsSign\<close>). The spec: the tokenizer consumes a text buffer, and each token
  carries its type, its position and its lexeme. The text is NUL-terminated:
  \<open>GetChar\<close> at the end of the text reads the terminator. The scanners read no
  position before the text or behind the terminator; \<open>GetChar_at\<close> has the NUL there.
  The line and column counters that \<open>NextChar\<close> keeps are left out, a token holds its
  start offset.
\<close>

definition Init :: "Lexer \<Rightarrow> string \<Rightarrow> Lexer" where
  "Init lx txt = lx\<lparr>lx_text := txt, lx_itr := 0, lx_tokens := []\<rparr>"

definition IsEnd :: "Lexer \<Rightarrow> bool" where
  "IsEnd lx = (lx_itr lx \<ge> length (lx_text lx))"

definition IsEnd_at :: "Lexer \<Rightarrow> int \<Rightarrow> bool" where
  "IsEnd_at lx offset = (int (lx_itr lx) + offset \<ge> int (length (lx_text lx)))"

definition GetChar_at :: "Lexer \<Rightarrow> int \<Rightarrow> char" where
  "GetChar_at lx offset =
     (let p = int (lx_itr lx) + offset
      in if 0 \<le> p \<and> p < int (length (lx_text lx)) then lx_text lx ! nat p else CHR 0x00)"

definition GetChar :: "Lexer \<Rightarrow> char" where
  "GetChar lx = GetChar_at lx 0"

definition GetCharType :: "Lexer \<Rightarrow> LexerTokenType" where
  "GetCharType lx = start_char_table lx (GetChar lx)"

definition GetPosition :: "Lexer \<Rightarrow> nat" where
  "GetPosition lx = lx_itr lx"

definition NextChar :: "Lexer \<Rightarrow> Lexer" where
  "NextChar lx = lx\<lparr>lx_itr := lx_itr lx + 1\<rparr>"

definition GetSubstr :: "Lexer \<Rightarrow> nat \<Rightarrow> nat \<Rightarrow> string" where
  "GetSubstr lx start stop =
     (if start < stop then take (stop - start) (drop start (lx_text lx)) else [])"

definition PushToken_value :: "Lexer \<Rightarrow> LexerTokenType \<Rightarrow> nat \<Rightarrow> string \<Rightarrow> Lexer" where
  "PushToken_value lx t start v =
     lx\<lparr>lx_tokens := lx_tokens lx @ [\<lparr>tk_type = t, tk_start = start, tk_value = v\<rparr>]\<rparr>"

definition PushToken :: "Lexer \<Rightarrow> LexerTokenType \<Rightarrow> nat \<Rightarrow> nat \<Rightarrow> Lexer" where
  "PushToken lx t start stop = PushToken_value lx t start (GetSubstr lx start stop)"

definition CharIsDigit :: "char \<Rightarrow> bool" where
  "CharIsDigit c = (c \<in> set ''0123456789'')"

definition CharIsSign :: "char \<Rightarrow> bool" where
  "CharIsSign c = (c = CHR ''+'' \<or> c = CHR ''-'')"

text \<open>\<open>CharMatch\<close> (utils.hpp) compares after \<open>std::tolower\<close>, here in the C locale.\<close>

definition to_lower :: "char \<Rightarrow> char" where
  "to_lower c =
     (case map_of (zip ''ABCDEFGHIJKLMNOPQRSTUVWXYZ'' ''abcdefghijklmnopqrstuvwxyz'') c of
        Some l \<Rightarrow> l
      | None \<Rightarrow> c)"

definition CharMatch :: "char \<Rightarrow> char \<Rightarrow> bool" where
  "CharMatch c1 c2 = (to_lower c1 = to_lower c2)"

text \<open>
  \<open>strncmp(s, text_ + itr_, strlen(s)) == 0\<close>: the text at the position starts with
  \<open>s\<close>.
\<close>

definition text_starts_with :: "Lexer \<Rightarrow> string \<Rightarrow> bool" where
  "text_starts_with lx s = (take (length s) (drop (lx_itr lx) (lx_text lx)) = s)"

subsection \<open>Scanners\<close>

text \<open>The loop \<open>while (!IsEnd() && strncmp(to, ...) != 0) NextChar()\<close> of \<open>ScanFromTo\<close>.\<close>

function ScanFromTo_find :: "Lexer \<Rightarrow> string \<Rightarrow> Lexer" where
  "ScanFromTo_find lx to =
     (if \<not> IsEnd lx \<and> \<not> text_starts_with lx to then ScanFromTo_find (NextChar lx) to else lx)"
  by pat_completeness auto
termination
  by (relation "measure (\<lambda>(lx, to). length (lx_text lx) - lx_itr lx)")
     (auto simp: IsEnd_def NextChar_def)

declare ScanFromTo_find.simps [simp del]

definition ScanFromTo :: "Lexer \<Rightarrow> string \<Rightarrow> string \<Rightarrow> Lexer \<times> bool" where
  "ScanFromTo lx from to =
     (if IsEnd lx \<or> \<not> text_starts_with lx from then (lx, False)
      else
        let lx = (NextChar ^^ length from) lx;
            lx = ScanFromTo_find lx to
        in if IsEnd lx then (lx, False) else ((NextChar ^^ length to) lx, True))"

text \<open>
  The loop \<open>while (!IsEnd() && GetCharType() == t) NextChar()\<close>, which
  \<open>ScanUnknown\<close> and \<open>ScanSymbol\<close> run for their own type.
\<close>

function scan_type :: "LexerTokenType \<Rightarrow> Lexer \<Rightarrow> Lexer" where
  "scan_type t lx = (if \<not> IsEnd lx \<and> GetCharType lx = t then scan_type t (NextChar lx) else lx)"
  by pat_completeness auto
termination
  by (relation "measure (\<lambda>(t, lx). length (lx_text lx) - lx_itr lx)")
     (auto simp: IsEnd_def NextChar_def)

declare scan_type.simps [simp del]

definition ScanUnknown :: "Lexer \<Rightarrow> Lexer \<times> bool" where
  "ScanUnknown lx =
     (let start = GetPosition lx;
          lx = scan_type kUnknown lx
      in (PushToken lx kUnknown start (GetPosition lx), True))"

function ScanWhitespace_loop :: "Lexer \<Rightarrow> bool \<Rightarrow> Lexer \<times> bool" where
  "ScanWhitespace_loop lx found =
     (if \<not> IsEnd lx \<and> GetCharType lx = kWhite then ScanWhitespace_loop (NextChar lx) True
      else (lx, found))"
  by pat_completeness auto
termination
  by (relation "measure (\<lambda>(lx, found). length (lx_text lx) - lx_itr lx)")
     (auto simp: IsEnd_def NextChar_def)

declare ScanWhitespace_loop.simps [simp del]

definition ScanWhitespace :: "Lexer \<Rightarrow> Lexer \<times> bool" where
  "ScanWhitespace lx =
     (let start = GetPosition lx;
          (lx, found) = ScanWhitespace_loop lx False
      in if include_whitespace lx \<and> found
         then (PushToken lx kWhite start (GetPosition lx), found)
         else (lx, found))"

text \<open>\<open>ScanComment\<close>: \<open>Lexer::ScanComment\<close> returns false, \<open>NewickLexer\<close> overrides it.\<close>

definition ScanComment :: "Lexer \<Rightarrow> Lexer \<times> bool" where
  "ScanComment lx =
     (case lx_class lx of
        BaseLexer \<Rightarrow> (lx, False)
      | NewickLexer \<Rightarrow>
          (if GetChar lx = CHR '']''
           then (PushToken_value lx kError (GetPosition lx) ''Closing comment without opening it.'',
                 False)
           else
             let start = GetPosition lx;
                 (lx, found) = ScanFromTo lx ''['' '']''
             in if \<not> found \<and> GetChar lx = CHR ''[''
                then (PushToken_value lx kError (GetPosition lx) ''Comment not closed.'', False)
                else if found \<and> include_comments lx
                then (PushToken lx kComment (start + 1) (GetPosition lx - 1), found)
                else (lx, found)))"

definition ScanSymbol :: "Lexer \<Rightarrow> Lexer \<times> bool" where
  "ScanSymbol lx =
     (let start = GetPosition lx;
          lx = scan_type kSymbol lx
      in (PushToken lx kSymbol start (GetPosition lx), True))"

text \<open>
  The loop of \<open>Lexer::ScanNumber\<close>. It returns the lexer where the loop has stopped
  and the flag \<open>err\<close>, which is false when the loop ends at the end of the text.
\<close>

function ScanNumber_loop :: "Lexer \<Rightarrow> nat \<Rightarrow> bool \<Rightarrow> bool \<Rightarrow> Lexer \<times> bool" where
  "ScanNumber_loop lx start found_d found_e =
     (if \<not> IsEnd lx then
        (if CharIsDigit (GetChar lx) then ScanNumber_loop (NextChar lx) start found_d found_e
         else if GetChar lx = CHR ''.'' then
           (if found_d \<or> IsEnd_at lx 1 \<or> \<not> CharIsDigit (GetChar_at lx 1)
            then (lx, False)
            else ScanNumber_loop (NextChar lx) start True found_e)
         else if CharMatch (GetChar lx) CHR ''e'' then
           (if found_e
               \<or> GetPosition lx = 0 \<or> \<not> CharIsDigit (GetChar_at lx (- 1))
               \<or> IsEnd_at lx 1
               \<or> (\<not> CharIsDigit (GetChar_at lx 1) \<and> \<not> CharIsSign (GetChar_at lx 1))
            then (lx, GetPosition lx = start)
            else ScanNumber_loop (NextChar lx) start found_d True)
         else if CharIsSign (GetChar lx) then
           (if \<not> (GetPosition lx = start
                  \<and> \<not> IsEnd_at lx 1 \<and> CharIsDigit (GetChar_at lx 1))
               \<and> \<not> (found_e \<and> CharMatch (GetChar_at lx (- 1)) CHR ''e''
                      \<and> \<not> IsEnd_at lx 1 \<and> CharIsDigit (GetChar_at lx 1))
            then (lx, GetPosition lx = start)
            else ScanNumber_loop (NextChar lx) start found_d found_e)
         else (lx, GetPosition lx = start))
      else (lx, False))"
  by pat_completeness auto
termination
  by (relation "measure (\<lambda>(lx, start, found_d, found_e). length (lx_text lx) - lx_itr lx)")
     (auto simp: IsEnd_def NextChar_def)

declare ScanNumber_loop.simps [simp del]

text \<open>\<open>Lexer::ScanNumber\<close>.\<close>

definition ScanNumber :: "Lexer \<Rightarrow> Lexer \<times> bool" where
  "ScanNumber lx =
     (let start = GetPosition lx;
          (lx, err) = ScanNumber_loop lx start False False
      in if err
         then (PushToken_value lx kError (GetPosition lx) ''Malformed number.'', False)
         else (PushToken lx kNumber start (GetPosition lx), True))"

text \<open>
  The call \<open>ScanNumber()\<close> through the virtual table: \<open>NewickLexer::ScanNumber\<close>
  asserts that the current character is the colon, skips it and scans as
  \<open>Lexer::ScanNumber\<close> does.
\<close>

definition ScanNumber_virtual :: "Lexer \<Rightarrow> error + Lexer \<times> bool" where
  "ScanNumber_virtual lx =
     (case lx_class lx of
        BaseLexer \<Rightarrow> Inr (ScanNumber lx)
      | NewickLexer \<Rightarrow>
          (if GetChar lx = CHR '':'' then Inr (ScanNumber (NextChar lx))
           else Inl AssertionFailed))"

text \<open>The loop of \<open>Lexer::ScanString\<close>; it returns \<open>jump\<close>, \<open>found_e\<close>, \<open>found_q\<close>.\<close>

function ScanString_loop ::
  "Lexer \<Rightarrow> char \<Rightarrow> bool \<Rightarrow> bool \<Rightarrow> bool \<Rightarrow> Lexer \<times> bool \<times> bool \<times> bool" where
  "ScanString_loop lx qmark jump found_e found_q =
     (if \<not> IsEnd lx then
        (if GetChar lx = CHR 0x5C \<and> use_string_escape lx
         then ScanString_loop (NextChar (NextChar lx)) qmark True True found_q
         else if GetChar lx = qmark \<and> GetChar_at lx 1 = qmark \<and> use_string_doubled_quotes lx
         then ScanString_loop (NextChar (NextChar lx)) qmark True found_e True
         else if GetChar lx = qmark then (NextChar lx, jump, found_e, found_q)
         else ScanString_loop (NextChar lx) qmark False found_e found_q)
      else (lx, jump, found_e, found_q))"
  by pat_completeness auto
termination
  by (relation "measure (\<lambda>(lx, qmark, jump, found_e, found_q). length (lx_text lx) - lx_itr lx)")
     (auto simp: IsEnd_def NextChar_def)

declare ScanString_loop.simps [simp del]

text \<open>
  \<open>Lexer::ScanString\<close>. \<open>StringDeescape\<close> and \<open>StringReplaceAll\<close> are declared in
  utils.hpp and defined elsewhere: they are parameters.
\<close>

definition ScanString ::
  "(string \<Rightarrow> string) \<Rightarrow> (string \<Rightarrow> string \<Rightarrow> string \<Rightarrow> string) \<Rightarrow> Lexer \<Rightarrow> Lexer \<times> bool" where
  "ScanString StringDeescape StringReplaceAll lx =
     (let qmark = GetChar lx;
          lx = NextChar lx
      in if IsEnd lx
         then (PushToken_value lx kError (GetPosition lx - 1) ''Malformed string.'', False)
         else
           let start = GetPosition lx;
               (lx, jump, found_e, found_q) = ScanString_loop lx qmark False False False
           in if jump \<or> (IsEnd lx \<and> \<not> (GetChar_at lx (- 1) = qmark))
              then (PushToken_value lx kError (start - 1) ''Malformed string.'', False)
              else
                let res = GetSubstr lx start (GetPosition lx - 1);
                    res = (if found_e \<and> use_string_escape lx then StringDeescape res else res);
                    res = (if found_q \<and> use_string_doubled_quotes lx
                           then StringReplaceAll res [qmark, qmark] [qmark] else res);
                    res = (if \<not> trim_quotation_marks lx then qmark # res @ [qmark] else res)
                in (PushToken_value lx kString (start - 1) res, True))"

definition ScanOperator :: "Lexer \<Rightarrow> error + Lexer \<times> bool" where
  "ScanOperator lx =
     (if CharIsSign (GetChar lx) \<and> glue_sign_to_number lx
         \<and> \<not> IsEnd_at lx 1 \<and> CharIsDigit (GetChar_at lx 1)
      then ScanNumber_virtual lx
      else Inr (NextChar (PushToken lx kOperator (GetPosition lx) (GetPosition lx + 1)), True))"

definition ScanBracket :: "Lexer \<Rightarrow> Lexer \<times> bool" where
  "ScanBracket lx =
     (NextChar (PushToken lx kBracket (GetPosition lx) (GetPosition lx + 1)), True)"

text \<open>\<open>ScanTag\<close>: \<open>Lexer::ScanTag\<close> returns false, \<open>NewickLexer\<close> overrides it.\<close>

definition ScanTag :: "Lexer \<Rightarrow> error + Lexer \<times> bool" where
  "ScanTag lx =
     (case lx_class lx of
        BaseLexer \<Rightarrow> Inr (lx, False)
      | NewickLexer \<Rightarrow>
          (if GetChar lx = CHR ''}''
           then Inr (PushToken_value lx kError (GetPosition lx) ''Closing tag without opening tag.'',
                     False)
           else if GetChar lx \<noteq> CHR ''{'' then Inl AssertionFailed
           else
             let start = GetPosition lx;
                 (lx, found) = ScanFromTo lx ''{'' ''}''
             in if \<not> found
                then Inr (PushToken_value lx kError start ''Opening tag without closing tag.'',
                          False)
                else if include_tags lx
                then Inr (PushToken lx kTag (start + 1) (GetPosition lx - 1), True)
                else Inr (lx, True)))"

subsection \<open>Progress of the scanners\<close>

text \<open>
  The loop of \<open>ProcessStep\<close> over whitespace and comments ends because a scanner
  that returns true has moved the position on. The facts its termination proof needs:
  a scanner changes nothing but the position, which does not go back, and the token
  list, which it extends.
\<close>

definition advances :: "Lexer \<Rightarrow> Lexer \<Rightarrow> bool" where
  "advances lx lx' = (\<exists>k\<ge>lx_itr lx. lx' = lx\<lparr>lx_itr := k\<rparr>)"

lemma advances_refl: "advances lx lx"
  by (auto simp: advances_def intro!: exI [of _ "lx_itr lx"])

lemma advances_NextChar: "advances lx (NextChar lx)"
  by (auto simp: advances_def NextChar_def intro!: exI [of _ "lx_itr lx + 1"])

lemma advances_trans: "advances a b \<Longrightarrow> advances b c \<Longrightarrow> advances a c"
proof -
  assume "advances a b" "advances b c"
  then obtain k k' where "lx_itr a \<le> k" "b = a\<lparr>lx_itr := k\<rparr>" "k \<le> k'" "c = b\<lparr>lx_itr := k'\<rparr>"
    by (auto simp: advances_def)
  then have "lx_itr a \<le> k' \<and> c = a\<lparr>lx_itr := k'\<rparr>" by simp
  then show ?thesis unfolding advances_def by blast
qed

lemma advances_step: "advances (NextChar lx) lx' \<Longrightarrow> advances lx lx'"
  using advances_NextChar advances_trans by blast

lemma advances_step2: "advances (NextChar (NextChar lx)) lx' \<Longrightarrow> advances lx lx'"
  using advances_step by blast

lemma advances_tokens: "advances lx lx' \<Longrightarrow> lx_tokens lx' = lx_tokens lx"
  by (auto simp: advances_def)

lemma advances_text: "advances lx lx' \<Longrightarrow> lx_text lx' = lx_text lx"
  by (auto simp: advances_def)

lemma advances_itr: "advances lx lx' \<Longrightarrow> lx_itr lx \<le> lx_itr lx'"
  by (auto simp: advances_def)

lemma NextChar_pow: "(NextChar ^^ n) lx = lx\<lparr>lx_itr := lx_itr lx + n\<rparr>"
  by (induction n) (simp_all add: NextChar_def)

lemma advances_NextChar_pow: "advances lx ((NextChar ^^ n) lx)"
  by (induction n) (auto intro: advances_refl advances_trans advances_NextChar)

lemma scan_type_advances: "advances lx (scan_type t lx)"
proof (induction t lx rule: scan_type.induct)
  case (1 t lx)
  show ?case
  proof (cases "\<not> IsEnd lx \<and> GetCharType lx = t")
    case True
    from "1.IH" [OF True] True show ?thesis
      by (subst scan_type.simps) (simp add: advances_step)
  next
    case False
    then show ?thesis
      by (subst scan_type.simps) (auto simp: advances_refl)
  qed
qed

lemma ScanFromTo_find_advances: "advances lx (ScanFromTo_find lx to)"
proof (induction lx to rule: ScanFromTo_find.induct)
  case (1 lx to)
  show ?case
  proof (cases "\<not> IsEnd lx \<and> \<not> text_starts_with lx to")
    case True
    from "1.IH" [OF True] True show ?thesis
      by (subst ScanFromTo_find.simps) (simp add: advances_step)
  next
    case False
    then show ?thesis
      by (subst ScanFromTo_find.simps) (auto simp: advances_refl)
  qed
qed

lemma ScanWhitespace_loop_advances:
  "ScanWhitespace_loop lx found = (lx', found') \<Longrightarrow>
   advances lx lx' \<and> (found' \<longrightarrow> found \<or> lx_itr lx < lx_itr lx')"
proof (induction lx found rule: ScanWhitespace_loop.induct)
  case (1 lx found)
  show ?case
  proof (cases "\<not> IsEnd lx \<and> GetCharType lx = kWhite")
    case True
    with "1.prems" have "ScanWhitespace_loop (NextChar lx) True = (lx', found')"
      by (subst (asm) ScanWhitespace_loop.simps) simp
    from "1.IH" [OF True this] have "advances (NextChar lx) lx'" by simp
    from advances_itr [OF this] advances_step [OF this] show ?thesis
      by (simp add: NextChar_def)
  next
    case False
    with "1.prems" have "lx' = lx" "found' = found"
      by (subst (asm) ScanWhitespace_loop.simps, auto)+
    then show ?thesis by (simp add: advances_refl)
  qed
qed

lemma ScanNumber_loop_cases:
  "ScanNumber_loop lx start found_d found_e = (lx', err) \<Longrightarrow>
   lx' = lx \<or> (\<not> IsEnd lx \<and> (\<exists>d e. ScanNumber_loop (NextChar lx) start d e = (lx', err)))"
  by (subst (asm) ScanNumber_loop.simps) (auto split: if_splits)

lemma ScanNumber_loop_advances:
  "ScanNumber_loop lx start found_d found_e = (lx', err) \<Longrightarrow> advances lx lx'"
proof (induction "length (lx_text lx) - lx_itr lx" arbitrary: lx found_d found_e rule: less_induct)
  case less
  from ScanNumber_loop_cases [OF less.prems] show ?case
  proof
    assume "lx' = lx"
    then show ?thesis by (simp add: advances_refl)
  next
    assume "\<not> IsEnd lx \<and> (\<exists>d e. ScanNumber_loop (NextChar lx) start d e = (lx', err))"
    then obtain d e where "\<not> IsEnd lx" and run: "ScanNumber_loop (NextChar lx) start d e = (lx', err)"
      by blast
    then have "length (lx_text (NextChar lx)) - lx_itr (NextChar lx) < length (lx_text lx) - lx_itr lx"
      by (auto simp: IsEnd_def NextChar_def)
    from less.hyps [OF this run] show ?thesis by (rule advances_step)
  qed
qed

lemma ScanString_loop_cases:
  "ScanString_loop lx qmark jump found_e found_q = (lx', r) \<Longrightarrow>
   lx' = lx \<or> lx' = NextChar lx
   \<or> (\<not> IsEnd lx \<and> (\<exists>j e q. ScanString_loop (NextChar lx) qmark j e q = (lx', r)))
   \<or> (\<not> IsEnd lx \<and> (\<exists>j e q. ScanString_loop (NextChar (NextChar lx)) qmark j e q = (lx', r)))"
  by (subst (asm) ScanString_loop.simps) (auto split: if_splits)

lemma ScanString_loop_advances:
  "ScanString_loop lx qmark jump found_e found_q = (lx', r) \<Longrightarrow> advances lx lx'"
proof (induction "length (lx_text lx) - lx_itr lx" arbitrary: lx jump found_e found_q rule: less_induct)
  case less
  from ScanString_loop_cases [OF less.prems]
  consider "lx' = lx" | "lx' = NextChar lx"
    | j e q where "\<not> IsEnd lx" "ScanString_loop (NextChar lx) qmark j e q = (lx', r)"
    | j e q where "\<not> IsEnd lx" "ScanString_loop (NextChar (NextChar lx)) qmark j e q = (lx', r)"
    by blast
  then show ?case
  proof cases
    case 1
    then show ?thesis by (simp add: advances_refl)
  next
    case 2
    then show ?thesis by (simp add: advances_NextChar)
  next
    case 3
    then have "length (lx_text (NextChar lx)) - lx_itr (NextChar lx) < length (lx_text lx) - lx_itr lx"
      by (auto simp: IsEnd_def NextChar_def)
    from less.hyps [OF this 3(2)] show ?thesis by (rule advances_step)
  next
    case 4
    then have "length (lx_text (NextChar (NextChar lx))) - lx_itr (NextChar (NextChar lx))
               < length (lx_text lx) - lx_itr lx"
      by (auto simp: IsEnd_def NextChar_def)
    from less.hyps [OF this 4(2)] show ?thesis by (rule advances_step2)
  qed
qed


definition scanned :: "Lexer \<Rightarrow> Lexer \<Rightarrow> LexerToken list \<Rightarrow> bool" where
  "scanned lx lx' ts = (\<exists>k\<ge>lx_itr lx. lx' = lx\<lparr>lx_itr := k, lx_tokens := lx_tokens lx @ ts\<rparr>)"

lemma advances_scanned: "advances lx lx' \<Longrightarrow> scanned lx lx' []"
  by (auto simp: advances_def scanned_def)

lemma scanned_refl: "scanned lx lx []"
  by (simp add: advances_scanned advances_refl)

lemma scanned_trans: "scanned a b ts \<Longrightarrow> scanned b c ts' \<Longrightarrow> scanned a c (ts @ ts')"
proof -
  assume "scanned a b ts" "scanned b c ts'"
  then obtain k k' where "lx_itr a \<le> k" "b = a\<lparr>lx_itr := k, lx_tokens := lx_tokens a @ ts\<rparr>"
    "k \<le> k'" "c = b\<lparr>lx_itr := k', lx_tokens := lx_tokens b @ ts'\<rparr>"
    by (auto simp: scanned_def)
  then have "lx_itr a \<le> k' \<and> c = a\<lparr>lx_itr := k', lx_tokens := lx_tokens a @ (ts @ ts')\<rparr>" by simp
  then show ?thesis unfolding scanned_def by blast
qed

lemma scanned_PushToken_value:
  "scanned lx (PushToken_value lx t start v) [\<lparr>tk_type = t, tk_start = start, tk_value = v\<rparr>]"
  by (auto simp: scanned_def PushToken_value_def intro!: exI [of _ "lx_itr lx"])

lemma scanned_push:
  "scanned lx lx' [] \<Longrightarrow>
   scanned lx (PushToken_value lx' t start v) [\<lparr>tk_type = t, tk_start = start, tk_value = v\<rparr>]"
  using scanned_trans [OF _ scanned_PushToken_value] by fastforce

lemma scanned_NextChar: "scanned lx lx' ts \<Longrightarrow> scanned lx (NextChar lx') ts"
  using scanned_trans [OF _ advances_scanned [OF advances_NextChar]] by fastforce

lemma scanned_tokens: "scanned lx lx' ts \<Longrightarrow> lx_tokens lx' = lx_tokens lx @ ts"
  by (auto simp: scanned_def)

lemma scanned_text: "scanned lx lx' ts \<Longrightarrow> lx_text lx' = lx_text lx"
  by (auto simp: scanned_def)

lemma scanned_itr: "scanned lx lx' ts \<Longrightarrow> lx_itr lx \<le> lx_itr lx'"
  by (auto simp: scanned_def)

lemma ScanFromTo_result:
  "ScanFromTo lx from to = (lx', found) \<Longrightarrow>
   advances lx lx' \<and> (found \<longrightarrow> \<not> IsEnd lx \<and> lx_itr lx + length from + length to \<le> lx_itr lx')"
proof -
  assume run: "ScanFromTo lx from to = (lx', found)"
  let ?a = "(NextChar ^^ length from) lx"
  let ?b = "ScanFromTo_find ?a to"
  let ?c = "(NextChar ^^ length to) ?b"
  have ab: "advances lx ?a" "advances ?a ?b" "advances ?b ?c"
    by (rule advances_NextChar_pow ScanFromTo_find_advances)+
  then have lb: "advances lx ?b" and lc: "advances lx ?c"
    by (blast intro: advances_trans)+
  have "lx_itr ?a = lx_itr lx + length from" by (simp add: NextChar_pow)
  with advances_itr [OF ab(2)] have "lx_itr lx + length from \<le> lx_itr ?b" by simp
  then have far: "lx_itr lx + length from + length to \<le> lx_itr ?c" by (simp add: NextChar_pow)
  from run lb lc far show ?thesis
    by (auto simp: ScanFromTo_def Let_def advances_refl split: if_splits)
qed

lemma ScanWhitespace_result:
  "ScanWhitespace lx = (lx', found) \<Longrightarrow>
   \<exists>ts. scanned lx lx' ts \<and> length ts \<le> 1 \<and> (\<forall>t \<in> set ts. tk_type t = kWhite) \<and>
        (found \<longrightarrow> \<not> IsEnd lx \<and> lx_itr lx < lx_itr lx')"
proof -
  assume run: "ScanWhitespace lx = (lx', found)"
  obtain lx1 f where loop: "ScanWhitespace_loop lx False = (lx1, f)" by force
  from ScanWhitespace_loop_advances [OF loop] have adv: "advances lx lx1"
    and f: "f \<longrightarrow> lx_itr lx < lx_itr lx1" by simp_all
  have ne: "f \<longrightarrow> \<not> IsEnd lx"
    using loop by (subst (asm) ScanWhitespace_loop.simps) (auto split: if_splits)
  show ?thesis
  proof (cases "include_whitespace lx1 \<and> f")
    case True
    with run loop have "lx' = PushToken_value lx1 kWhite (GetPosition lx) (GetSubstr lx1 (GetPosition lx) (GetPosition lx1))"
      and "found = f"
      by (auto simp: ScanWhitespace_def PushToken_def Let_def)
    with scanned_push [OF advances_scanned [OF adv]] f ne True show ?thesis
      by (fastforce simp: PushToken_value_def)
  next
    case False
    with run loop have "lx' = lx1" "found = f" by (auto simp: ScanWhitespace_def Let_def)
    with advances_scanned [OF adv] f ne show ?thesis by fastforce
  qed
qed


lemma ScanComment_result:
  "ScanComment lx = (lx', found) \<Longrightarrow>
   \<exists>ts. scanned lx lx' ts \<and> length ts \<le> 1 \<and>
        (found \<longrightarrow> (\<forall>t \<in> set ts. tk_type t = kComment) \<and> \<not> IsEnd lx \<and> lx_itr lx < lx_itr lx')"
proof (cases "lx_class lx")
  case BaseLexer
  assume "ScanComment lx = (lx', found)"
  with BaseLexer have "lx' = lx" "\<not> found" by (simp_all add: ScanComment_def)
  with scanned_refl [of lx] show ?thesis by fastforce
next
  case NewickLexer
  assume run: "ScanComment lx = (lx', found)"
  show ?thesis
  proof (cases "GetChar lx = CHR '']''")
    case True
    with run NewickLexer have "lx' = PushToken_value lx kError (GetPosition lx)
        ''Closing comment without opening it.''" "\<not> found"
      by (simp_all add: ScanComment_def)
    with scanned_PushToken_value [of lx] show ?thesis by fastforce
  next
    case False
    obtain lx1 f where sc: "ScanFromTo lx ''['' '']'' = (lx1, f)" by force
    from ScanFromTo_result [OF sc] have adv: "scanned lx lx1 []"
      and f: "f \<longrightarrow> \<not> IsEnd lx \<and> lx_itr lx < lx_itr lx1"
      by (auto intro: advances_scanned)
    from run NewickLexer False sc consider
      (err) "lx' = PushToken_value lx1 kError (GetPosition lx1) ''Comment not closed.''" "\<not> found"
      | (tok) "lx' = PushToken_value lx1 kComment (GetPosition lx + 1)
                 (GetSubstr lx1 (GetPosition lx + 1) (GetPosition lx1 - 1))" "found = f"
      | (none) "lx' = lx1" "found = f"
      by (auto simp: ScanComment_def Let_def PushToken_def split: if_splits)
    then show ?thesis
    proof cases
      case err
      with scanned_push [OF adv] show ?thesis by fastforce
    next
      case tok
      with scanned_push [OF adv, of kComment] f show ?thesis
        by (fastforce simp: PushToken_value_def)
    next
      case none
      with adv f show ?thesis by fastforce
    qed
  qed
qed

subsection \<open>Steps and drivers\<close>

text \<open>\<open>while (ScanWhitespace() || ScanComment()) continue;\<close>\<close>

function skip_white_comments :: "Lexer \<Rightarrow> Lexer" where
  "skip_white_comments lx =
     (if snd (ScanWhitespace lx) then skip_white_comments (fst (ScanWhitespace lx))
      else if snd (ScanComment (fst (ScanWhitespace lx)))
      then skip_white_comments (fst (ScanComment (fst (ScanWhitespace lx))))
      else fst (ScanComment (fst (ScanWhitespace lx))))"
  by pat_completeness auto
termination
proof (relation "measure (\<lambda>lx. length (lx_text lx) - lx_itr lx)")
  show "wf (measure (\<lambda>lx. length (lx_text lx) - lx_itr lx))" by simp
next
  fix lx
  assume "snd (ScanWhitespace lx)"
  with ScanWhitespace_result [OF prod.collapse [symmetric], of lx]
  obtain ts where "scanned lx (fst (ScanWhitespace lx)) ts" "\<not> IsEnd lx"
    "lx_itr lx < lx_itr (fst (ScanWhitespace lx))" by auto
  then show "(fst (ScanWhitespace lx), lx) \<in> measure (\<lambda>lx. length (lx_text lx) - lx_itr lx)"
    by (auto simp: IsEnd_def dest: scanned_text)
next
  fix lx
  let ?w = "fst (ScanWhitespace lx)"
  assume "\<not> snd (ScanWhitespace lx)" "snd (ScanComment ?w)"
  with ScanComment_result [OF prod.collapse [symmetric], of ?w]
  obtain ts where c: "scanned ?w (fst (ScanComment ?w)) ts" "\<not> IsEnd ?w"
    "lx_itr ?w < lx_itr (fst (ScanComment ?w))" by auto
  from ScanWhitespace_result [OF prod.collapse [symmetric], of lx]
  obtain ts' where w: "scanned lx ?w ts'" by auto
  note scanned_text [OF c(1)] scanned_text [OF w] scanned_itr [OF w]
  with c(2,3) show "(fst (ScanComment ?w), lx) \<in> measure (\<lambda>lx. length (lx_text lx) - lx_itr lx)"
    by (simp add: IsEnd_def)
qed

declare skip_white_comments.simps [simp del]

text \<open>The \<open>switch\<close> of \<open>Lexer::ProcessStep\<close> over the type of the current character.\<close>

definition ProcessStep_switch ::
  "(string \<Rightarrow> string) \<Rightarrow> (string \<Rightarrow> string \<Rightarrow> string \<Rightarrow> string) \<Rightarrow> LexerTokenType \<Rightarrow> Lexer \<Rightarrow>
   error + Lexer \<times> bool" where
  "ProcessStep_switch StringDeescape StringReplaceAll t lx =
     (case t of
        kSymbol \<Rightarrow> Inr (ScanSymbol lx)
      | kNumber \<Rightarrow> ScanNumber_virtual lx
      | kString \<Rightarrow> Inr (ScanString StringDeescape StringReplaceAll lx)
      | kBracket \<Rightarrow> Inr (ScanBracket lx)
      | kOperator \<Rightarrow> ScanOperator lx
      | kTag \<Rightarrow> ScanTag lx
      | kUnknown \<Rightarrow> Inr (ScanUnknown lx)
      | kWhite \<Rightarrow> Inl AssertionFailed
      | kComment \<Rightarrow> Inl AssertionFailed
      | kError \<Rightarrow> Inl AssertionFailed)"

text \<open>\<open>Lexer::ProcessStep\<close>. The values the scanners return are not used.\<close>

definition ProcessStep ::
  "(string \<Rightarrow> string) \<Rightarrow> (string \<Rightarrow> string \<Rightarrow> string \<Rightarrow> string) \<Rightarrow> Lexer \<Rightarrow> error + Lexer \<times> bool" where
  "ProcessStep StringDeescape StringReplaceAll lx =
     (if IsEnd lx then Inr (lx, False)
      else
        let lx = skip_white_comments lx
        in if lx_tokens lx \<noteq> [] \<and> IsError (last (lx_tokens lx)) then Inr (lx, False)
           else if IsEnd lx then Inr (lx, False)
           else
             let t = GetCharType lx
             in if t = kError
                then Inr (PushToken_value lx kError (GetPosition lx) ''Invalid character.'', False)
                else
                  (case ProcessStep_switch StringDeescape StringReplaceAll t lx of
                     Inl e \<Rightarrow> Inl e
                   | Inr (lx, r) \<Rightarrow>
                       if lx_tokens lx = [] \<or> IsError (last (lx_tokens lx)) then Inr (lx, False)
                       else Inr (lx, True)))"

text \<open>
  The loop of \<open>Lexer::ProcessString\<close>, \<open>while (!IsEnd()) { if (!ProcessStep()) return
  tokens_.empty(); } return true;\<close>. A scanner that neither moves nor fails (as
  \<open>Lexer::ScanTag\<close>) makes it run for ever; \<open>None\<close> is a run that does not return.
\<close>

partial_function (option) ProcessString_loop ::
  "(string \<Rightarrow> string) \<Rightarrow> (string \<Rightarrow> string \<Rightarrow> string \<Rightarrow> string) \<Rightarrow> Lexer \<Rightarrow>
   (error + Lexer \<times> bool) option" where
  "ProcessString_loop sd sra lx =
     (if \<not> IsEnd lx
      then (if isl (ProcessStep sd sra lx) then Some (Inl (projl (ProcessStep sd sra lx)))
            else if \<not> snd (projr (ProcessStep sd sra lx))
            then Some (Inr (fst (projr (ProcessStep sd sra lx)),
                            lx_tokens (fst (projr (ProcessStep sd sra lx))) = []))
            else ProcessString_loop sd sra (fst (projr (ProcessStep sd sra lx))))
      else Some (Inr (lx, True)))"

text \<open>\<open>Lexer::ProcessString\<close>, on the lexer object \<open>lx\<close>.\<close>

declare ProcessString_loop.simps [code]

definition ProcessString ::
  "(string \<Rightarrow> string) \<Rightarrow> (string \<Rightarrow> string \<Rightarrow> string \<Rightarrow> string) \<Rightarrow> Lexer \<Rightarrow> string \<Rightarrow> bool \<Rightarrow>
   (error + Lexer \<times> bool) option" where
  "ProcessString sd sra lx txt stepwise =
     (let lx = Init lx txt
      in if stepwise then Some (ProcessStep sd sra lx) else ProcessString_loop sd sra lx)"

text \<open>
  The stepwise mode, as the comment of \<open>ProcessString\<close> describes it: after
  \<open>ProcessString(text, true)\<close>, \<open>ProcessStep\<close> is called until it returns false.
\<close>

partial_function (option) ProcessStep_repeat ::
  "(string \<Rightarrow> string) \<Rightarrow> (string \<Rightarrow> string \<Rightarrow> string \<Rightarrow> string) \<Rightarrow> Lexer \<Rightarrow> (error + Lexer) option" where
  "ProcessStep_repeat sd sra lx =
     (if isl (ProcessStep sd sra lx) then Some (Inl (projl (ProcessStep sd sra lx)))
      else if snd (projr (ProcessStep sd sra lx))
      then ProcessStep_repeat sd sra (fst (projr (ProcessStep sd sra lx)))
      else Some (Inr (fst (projr (ProcessStep sd sra lx)))))"

declare ProcessStep_repeat.simps [code]

definition ProcessString_stepwise ::
  "(string \<Rightarrow> string) \<Rightarrow> (string \<Rightarrow> string \<Rightarrow> string \<Rightarrow> string) \<Rightarrow> Lexer \<Rightarrow> string \<Rightarrow>
   (error + Lexer) option" where
  "ProcessString_stepwise sd sra lx txt =
     (case ProcessString sd sra lx txt True of
        None \<Rightarrow> None
      | Some (Inl e) \<Rightarrow> Some (Inl e)
      | Some (Inr (lx, r)) \<Rightarrow> if r then ProcessStep_repeat sd sra lx else Some (Inr lx))"

text \<open>
  A \<open>NewickLexer\<close> as its constructor sets it up (newick_processor.hpp): the character
  types and the flags. The constructor of the base class is in lexer.hpp, not among the
  sources; for the characters the \<open>NewickLexer\<close> does not set, the table of the
  examples has letters as symbols, blanks as white space and every other character as an
  error. The theorems on the lexer hold for every table and all flags.
\<close>

definition newick_char_table :: "char \<Rightarrow> LexerTokenType" where
  "newick_char_table c =
     (if c \<in> set ''[]'' then kComment
      else if c \<in> set ''{}'' then kTag
      else if c \<in> set ''()'' then kBracket
      else if c \<in> set '',;'' then kOperator
      else if c = CHR 0x27 then kString
      else if c = CHR '':'' then kNumber
      else if c \<in> set ''0123456789'' then kSymbol
      else if c \<in> set (CHR 0x22 # CHR 0x5C # ''!#$%&*+-./<=>?@^_`|~'') then kSymbol
      else if c \<in> set ''ABCDEFGHIJKLMNOPQRSTUVWXYZabcdefghijklmnopqrstuvwxyz'' then kSymbol
      else if c \<in> set [CHR 0x20, CHR 0x09, CHR 0x0A, CHR 0x0D] then kWhite
      else kError)"

definition newick_lexer :: Lexer where
  "newick_lexer =
     \<lparr>lx_class = NewickLexer, start_char_table = newick_char_table,
      include_whitespace = False, include_comments = True, glue_sign_to_number = False,
      trim_quotation_marks = True, use_string_escape = False, use_string_doubled_quotes = True,
      include_tags = True, lx_text = [], lx_itr = 0, lx_tokens = []\<rparr>"

text \<open>
  A \<open>Lexer\<close> of the base class, for the examples of the number scanner: digits
  start a number, and signs are glued to a number that follows.
\<close>

definition base_char_table :: "char \<Rightarrow> LexerTokenType" where
  "base_char_table c =
     (if c \<in> set ''0123456789'' then kNumber
      else if c \<in> set ''+-*/=.,;'' then kOperator
      else if c \<in> set ''()'' then kBracket
      else if c \<in> set ''ABCDEFGHIJKLMNOPQRSTUVWXYZabcdefghijklmnopqrstuvwxyz_'' then kSymbol
      else if c \<in> set [CHR 0x20, CHR 0x09, CHR 0x0A, CHR 0x0D] then kWhite
      else kUnknown)"

definition base_lexer :: "string \<Rightarrow> Lexer" where
  "base_lexer txt =
     \<lparr>lx_class = BaseLexer, start_char_table = base_char_table,
      include_whitespace = False, include_comments = False, glue_sign_to_number = True,
      trim_quotation_marks = False, use_string_escape = False, use_string_doubled_quotes = False,
      include_tags = True, lx_text = txt, lx_itr = 0, lx_tokens = []\<rparr>"

text \<open>The parameter \<open>StringDeescape\<close> of the examples (no text there has an escape).\<close>

definition example_deescape :: "string \<Rightarrow> string" where
  "example_deescape s = s"

text \<open>
  The property of a token list that an error token, if there is one, is its last
  element; and the scanners' part in it, that a scanner pushes at most one token.
\<close>

definition no_error :: "LexerToken list \<Rightarrow> bool" where
  "no_error ts = list_all (\<lambda>t. \<not> IsError t) ts"

definition error_only_last :: "LexerToken list \<Rightarrow> bool" where
  "error_only_last ts = no_error (butlast ts)"

definition pushes_at_most_one :: "Lexer \<Rightarrow> Lexer \<Rightarrow> bool" where
  "pushes_at_most_one lx lx' = (\<exists>ts. scanned lx lx' ts \<and> length ts \<le> 1)"

section \<open>Theorems\<close>

subsection \<open>Bitvector\<close>

text \<open>
  C10. For every Bitvector \<open>b\<close> and every index \<open>i\<close> with \<open>i \<ge> b.size()\<close>, the
  boundary-checked accessors are total and leave the bitvector alone: \<open>Get\<close> returns
  false, and \<open>Set\<close>, \<open>Unset\<close> and \<open>Flip\<close> return the bitvector unchanged, whatever
  the mask table holds.
\<close>

theorem Bitvector_out_of_range:
  "i \<ge> bv_size b \<Longrightarrow>
     Get bit_mask b i = Inr False \<and> Set bit_mask b i = Inr b \<and>
     Unset bit_mask b i = Inr b \<and> Flip bit_mask b i = Inr b"
  by (simp add: Get_def Set_def Unset_def Flip_def)

theorem Bitvector_out_of_range_witness:
  "(3::nat) \<ge> bv_size \<lparr>bv_size = 3, bv_data = [5]\<rparr> \<and>
   Get (\<lambda>k. push_bit k 1) \<lparr>bv_size = 3, bv_data = [5]\<rparr> 3 = Inr False \<and>
   Set (\<lambda>k. push_bit k 1) \<lparr>bv_size = 3, bv_data = [5]\<rparr> 3 = Inr \<lparr>bv_size = 3, bv_data = [5]\<rparr> \<and>
   Unset (\<lambda>k. push_bit k 1) \<lparr>bv_size = 3, bv_data = [5]\<rparr> 3 = Inr \<lparr>bv_size = 3, bv_data = [5]\<rparr> \<and>
   Flip (\<lambda>k. push_bit k 1) \<lparr>bv_size = 3, bv_data = [5]\<rparr> 3 = Inr \<lparr>bv_size = 3, bv_data = [5]\<rparr>"
  using Bitvector_out_of_range [of "\<lparr>bv_size = 3, bv_data = [5]\<rparr>" 3 "\<lambda>k. push_bit k 1"]
  by simp

subsection \<open>Newick serialization\<close>

lemma ElementToString_flags:
  "print_names np = print_names np' \<Longrightarrow> print_branch_lengths np = print_branch_lengths np' \<Longrightarrow>
   print_comments np = print_comments np' \<Longrightarrow> print_tags np = print_tags np' \<Longrightarrow>
   ElementToString ts sra np bn = ElementToString ts sra np' bn"
  by (simp add: ElementToString_def)

lemma ToStringRec_children_stop:
  "\<not> (i < length broker \<and> depth (broker ! i) > depth (broker ! pos)) \<Longrightarrow>
   ToStringRec_children ts sra np broker pos i ch = Inr ch"
  by (subst ToStringRec_children.simps) auto

lemma ToStringRec_children_skip:
  "i < length broker \<Longrightarrow> depth (broker ! i) > depth (broker ! pos) + 1 \<Longrightarrow>
   ToStringRec_children ts sra np broker pos i ch
   = ToStringRec_children ts sra np broker pos (i + 1) ch"
  by (subst ToStringRec_children.simps) simp

lemma ToStringRec_children_child:
  "i < length broker \<Longrightarrow> depth (broker ! i) > depth (broker ! pos) \<Longrightarrow>
   \<not> depth (broker ! i) > depth (broker ! pos) + 1 \<Longrightarrow>
   ToStringRec_children ts sra np broker pos i ch
   = (case ToStringRec ts sra np broker i of
        Inl e \<Rightarrow> Inl e
      | Inr s \<Rightarrow> ToStringRec_children ts sra np broker pos (i + 1) (s # ch))"
  by (subst ToStringRec_children.simps) simp

text \<open>
  The text depends on the statics through the four print flags only: by induction along
  the recursion of \<open>ToStringRec\<close> and its loop.
\<close>

lemma ToStringRec_flags:
  assumes "print_names np = print_names np'"
    and "print_branch_lengths np = print_branch_lengths np'"
    and "print_comments np = print_comments np'"
    and "print_tags np = print_tags np'"
  shows "ToStringRec ts sra np broker pos = ToStringRec ts sra np' broker pos"
    and "ToStringRec_children ts sra np broker pos i children
         = ToStringRec_children ts sra np' broker pos i children"
  using assms
proof (induction ts sra np broker pos and ts sra np broker pos i children
    rule: ToStringRec_ToStringRec_children.induct)
  case (1 to_string sra np broker pos)
  note flags = "1.prems"
  have e: "ElementToString to_string sra np (broker ! pos)
           = ElementToString to_string sra np' (broker ! pos)"
    using flags by (rule ElementToString_flags)
  show ?case
  proof (cases "pos \<ge> length broker \<or> rank (broker ! pos) = 0")
    case True
    then show ?thesis by (auto simp add: ToStringRec.simps e)
  next
    case False
    then have "ToStringRec_children to_string sra np broker pos (pos + 1) []
               = ToStringRec_children to_string sra np' broker pos (pos + 1) []"
      using "1.IH" flags by simp
    with False show ?thesis by (simp add: ToStringRec.simps e split: sum.splits)
  qed
next
  case (2 to_string sra np broker pos i children)
  note flags = "2.prems"
  show ?case
  proof (cases "i < length broker \<and> depth (broker ! i) > depth (broker ! pos)")
    case False
    then show ?thesis by (simp add: ToStringRec_children_stop)
  next
    case inside: True
    show ?thesis
    proof (cases "depth (broker ! i) > depth (broker ! pos) + 1")
      case True
      from "2.IH"(1) [OF inside True flags] inside True show ?thesis
        by (simp add: ToStringRec_children_skip)
    next
      case False
      note rec = "2.IH"(2) [OF inside False flags]
      show ?thesis
      proof (cases "ToStringRec to_string sra np broker i")
        case (Inl e)
        with rec have "ToStringRec to_string sra np' broker i = Inl e" by simp
        with Inl inside False show ?thesis
          by (simp add: ToStringRec_children_child)
      next
        case (Inr str)
        with rec have "ToStringRec to_string sra np' broker i = Inr str" by simp
        with "2.IH"(3) [OF inside False Inr flags] Inr inside False show ?thesis
          by (simp add: ToStringRec_children_child)
      qed
    qed
  qed
qed

text \<open>
  C8. Serialization is deterministic: for one broker and fixed print flags, two
  invocations of \<open>ToStringRec\<close> and of \<open>ElementToString\<close> give the same text (and
  the same failure, where \<open>pos\<close> is outside the broker), whatever the other statics
  of \<open>NewickProcessor\<close> hold at the two invocations.
\<close>

theorem serialization_deterministic:
  assumes "print_names np = print_names np'"
    and "print_branch_lengths np = print_branch_lengths np'"
    and "print_comments np = print_comments np'"
    and "print_tags np = print_tags np'"
  shows "ToStringRec to_string sra np broker pos = ToStringRec to_string sra np' broker pos
         \<and> ElementToString to_string sra np bn = ElementToString to_string sra np' bn"
  using assms ToStringRec_flags(1) ElementToString_flags by blast

lemma example_broker_text:
  "ToStringRec example_to_string StringReplaceAll_char (example_statics p) example_broker 0
   = Inr ''(B:2.000000,A:1.000000)The_Root:0.000000''"
  by (simp add: ToStringRec.simps ToStringRec_children.simps example_statics_def
      example_broker_def ElementToString_def example_to_string_def StringReplaceAll_char_def)

theorem serialization_deterministic_witness:
  "print_names (example_statics 2) = print_names (example_statics 8) \<and>
   print_branch_lengths (example_statics 2) = print_branch_lengths (example_statics 8) \<and>
   print_comments (example_statics 2) = print_comments (example_statics 8) \<and>
   print_tags (example_statics 2) = print_tags (example_statics 8) \<and>
   ToStringRec example_to_string StringReplaceAll_char (example_statics 2) example_broker 0
     = Inr ''(B:2.000000,A:1.000000)The_Root:0.000000'' \<and>
   ToStringRec example_to_string StringReplaceAll_char (example_statics 8) example_broker 0
     = Inr ''(B:2.000000,A:1.000000)The_Root:0.000000''"
  using serialization_deterministic [of "example_statics 2" "example_statics 8"
      example_to_string StringReplaceAll_char example_broker 0]
    example_broker_text [of 2]
  by (simp add: example_statics_def)





subsection \<open>Links of a node\<close>

lemma Rank_loop_cycle:
  "0 < j \<Longrightarrow> follow Next j l = Some p \<Longrightarrow>
   (\<forall>i. 0 < i \<and> i < j \<longrightarrow> follow Next i l \<noteq> Some p) \<Longrightarrow>
   Rank_loop Next (Some p) r l = Some (Inr (r + int j))"
proof (induction j arbitrary: l r)
  case 0
  then show ?case by simp
next
  case (Suc j)
  from Suc.prems(2) obtain l' where nx: "Next l = Some l'" and rest: "follow Next j l' = Some p"
    by (auto split: option.splits)
  show ?case
  proof (cases "j = 0")
    case True
    with rest have "l' = p" by simp
    with nx True show ?thesis by (subst Rank_loop.simps) simp
  next
    case False
    from Suc.prems(3) [rule_format, of 1] False nx have ne: "l' \<noteq> p" by auto
    have min: "\<forall>i. 0 < i \<and> i < j \<longrightarrow> follow Next i l' \<noteq> Some p"
    proof (intro allI impI)
      fix i assume "0 < i \<and> i < j"
      with Suc.prems(3) [rule_format, of "Suc i"] nx show "follow Next i l' \<noteq> Some p" by simp
    qed
    from False have "0 < j" by simp
    from Suc.IH [OF this rest min, of "r + 1"] nx ne show ?thesis
      by (subst Rank_loop.simps) (simp add: algebra_simps)
  qed
qed

lemma collect_links_cycle:
  "0 < j \<Longrightarrow> follow Next j l = Some p \<Longrightarrow>
   (\<forall>i. 0 < i \<and> i < j \<longrightarrow> follow Next i l \<noteq> Some p) \<Longrightarrow>
   collect_links Next \<lparr>it_link = Some l, it_start = Some p\<rparr> acc
   = Some (Inr (acc @ map (\<lambda>i. follow Next i l) [0..<j]))"
proof (induction j arbitrary: l acc)
  case 0
  then show ?case by simp
next
  case (Suc j)
  from Suc.prems(2) obtain l' where nx: "Next l = Some l'" and rest: "follow Next j l' = Some p"
    by (auto split: option.splits)
  show ?case
  proof (cases "j = 0")
    case True
    with rest have "l' = p" by simp
    with nx True show ?thesis
      by (subst collect_links.simps, subst collect_links.simps)
         (simp add: iter_eq_def EndLinks_def iter_incr_def)
  next
    case False
    from Suc.prems(3) [rule_format, of 1] False nx have ne: "l' \<noteq> p" by auto
    have min: "\<forall>i. 0 < i \<and> i < j \<longrightarrow> follow Next i l' \<noteq> Some p"
    proof (intro allI impI)
      fix i assume "0 < i \<and> i < j"
      with Suc.prems(3) [rule_format, of "Suc i"] nx show "follow Next i l' \<noteq> Some p" by simp
    qed
    from False have "0 < j" by simp
    have shift: "map (\<lambda>i. follow Next i l) [0..<Suc j]
                 = Some l # map (\<lambda>i. follow Next i l') [0..<j]"
      using nx by (simp add: upt_rec [of 0 "Suc j"] map_Suc_upt [symmetric] del: upt_Suc)
    from Suc.IH [OF \<open>0 < j\<close> rest min, of "acc @ [Some l]"] nx ne show ?thesis
      by (subst collect_links.simps)
         (simp add: iter_eq_def EndLinks_def iter_incr_def shift del: upt_Suc)
  qed
qed

text \<open>A chain that returns to its start has a first return.\<close>

lemma least_return:
  assumes "\<exists>k>0. follow Next k p = Some p"
  obtains k where "0 < k" "follow Next k p = Some p"
    "\<forall>i. 0 < i \<and> i < k \<longrightarrow> follow Next i p \<noteq> Some p"
proof -
  let ?P = "\<lambda>k. 0 < k \<and> follow Next k p = Some p"
  from assms have "\<exists>k. ?P k" by blast
  then obtain k where "?P k" and least: "\<forall>m<k. \<not> ?P m"
    unfolding exists_least_iff [of ?P] by blast
  then show thesis using that [of k] by blast
qed

text \<open>
  C7. For a node whose \<open>next\<close> chain forms a finite cycle through its primary link
  \<open>p\<close>: \<open>Rank()\<close> returns some \<open>r\<close>, the iteration from \<open>BeginLinks()\<close> to
  \<open>EndLinks()\<close> ends and yields exactly \<open>r + 1\<close> links, and following \<open>next\<close> from
  the primary link returns to it after exactly \<open>r + 1\<close> steps and not before.
\<close>

theorem links_iteration_yields_rank_plus_one:
  assumes "\<exists>k>0. follow Next k p = Some p"
  shows "\<exists>r ls. Rank Next (Some p) = Some (Inr r) \<and> NodeLinks Next (Some p) = Some (Inr ls) \<and>
           int (length ls) = r + 1 \<and> follow Next (nat (r + 1)) p = Some p \<and>
           (\<forall>i. 0 < i \<and> i < nat (r + 1) \<longrightarrow> follow Next i p \<noteq> Some p)"
proof -
  from assms obtain k where k: "0 < k" "follow Next k p = Some p"
    "\<forall>i. 0 < i \<and> i < k \<longrightarrow> follow Next i p \<noteq> Some p"
    by (rule least_return)
  have r: "Rank Next (Some p) = Some (Inr (int k - 1))"
    using Rank_loop_cycle [OF k, of "- 1"] by (simp add: Rank_def)
  have ls: "NodeLinks Next (Some p) = Some (Inr (map (\<lambda>i. follow Next i p) [0..<k]))"
    using collect_links_cycle [OF k, of "[]"] by (simp add: NodeLinks_def BeginLinks_def)
  have "nat (int k - 1 + 1) = k" by simp
  with r ls k show ?thesis
    by (intro exI [of _ "int k - 1"] exI [of _ "map (\<lambda>i. follow Next i p) [0..<k]"] conjI)
       simp_all
qed

lemma ring3_Rank: "Rank ring3 (Some 0) = Some (Inr 2)"
  by (simp add: Rank_def Rank_loop.simps ring3_def)

lemma ring3_NodeLinks: "NodeLinks ring3 (Some 0) = Some (Inr [Some 0, Some 1, Some 2])"
  by (simp add: NodeLinks_def BeginLinks_def collect_links.simps ring3_def iter_eq_def
      EndLinks_def iter_incr_def)

theorem links_iteration_yields_rank_plus_one_witness:
  "(\<exists>k>0. follow ring3 k 0 = Some 0) \<and> Rank ring3 (Some 0) = Some (Inr 2) \<and>
   NodeLinks ring3 (Some 0) = Some (Inr [Some 0, Some 1, Some 2])"
proof -
  have wf: "\<exists>k>0. follow ring3 k 0 = Some 0"
    by (rule exI [of _ 3]) (simp add: ring3_def numeral_3_eq_3)
  from links_iteration_yields_rank_plus_one [OF wf] ring3_Rank ring3_NodeLinks wf
  show ?thesis by simp
qed

subsection \<open>Plausibility check\<close>


lemma Eulertour_below_subset: "set (Eulertour_below t) \<subseteq> set (Preorder_nodes t)"
  by (induction t) auto

lemma Eulertour_subset: "set (Eulertour_nodes t) \<subseteq> set (Preorder_nodes t)"
proof (cases t)
  case (Node i n cs)
  have "set (Eulertour_below c) \<subseteq> set (Preorder_nodes c)" for c by (rule Eulertour_below_subset)
  with Node show ?thesis by (auto simp: Eulertour_nodes_def)
qed

lemma Eulertour_nonempty: "Eulertour_nodes t \<noteq> []"
  by (cases t) (auto simp: Eulertour_nodes_def neq_Nil_conv)

lemma Preorder_nonempty: "0 < length (Preorder_nodes t)"
  by (cases t) simp

lemma length_concat_sum: "length (concat (map f xs)) = (\<Sum>x\<leftarrow>xs. length (f x))"
  by (induction xs) auto

lemma length_Eulertour_below: "length (Eulertour_below t) = 2 * length (Preorder_nodes t) - 1"
proof (induction t)
  case (Node i n cs)
  have "(\<Sum>c\<leftarrow>cs. length (Eulertour_below c @ [Node i n cs])) = (\<Sum>c\<leftarrow>cs. 2 * length (Preorder_nodes c))"
  proof (rule arg_cong [where f = sum_list], rule map_cong [OF refl])
    fix c assume "c \<in> set cs"
    with Node.IH [OF this] Preorder_nonempty [of c]
    show "length (Eulertour_below c @ [Node i n cs]) = 2 * length (Preorder_nodes c)" by simp
  qed
  then show ?case
    by (simp add: length_concat_sum sum_list_const_mult)
qed

lemma length_Eulertour:
  "length (Eulertour_nodes t) = (if node_children t = [] then 1 else 2 * NodeCount t - 2)"
proof (cases t)
  case (Node i n cs)
  have "(\<Sum>c\<leftarrow>cs. length (t # Eulertour_below c)) = (\<Sum>c\<leftarrow>cs. 2 * length (Preorder_nodes c))"
  proof (rule arg_cong [where f = sum_list], rule map_cong [OF refl])
    fix c assume "c \<in> set cs"
    from length_Eulertour_below [of c] Preorder_nonempty [of c]
    show "length (t # Eulertour_below c) = 2 * length (Preorder_nodes c)" by simp
  qed
  with Node show ?thesis
    by (simp add: Eulertour_nodes_def NodeCount_def length_concat_sum sum_list_const_mult)
qed

lemma leaf_in_Preorder: "\<exists>l \<in> set (Preorder_nodes t). IsLeaf l"
proof (induction t)
  case (Node i n cs)
  show ?case
  proof (cases cs)
    case Nil
    then show ?thesis by (simp add: IsLeaf_def)
  next
    case (Cons c cs')
    then have "c \<in> set cs" by simp
    from Node.IH [OF this] this show ?thesis by auto
  qed
qed

lemma LeafCount_positive: "1 \<le> LeafCount t"
proof -
  from leaf_in_Preorder [of t] have "filter IsLeaf (Preorder_nodes t) \<noteq> []"
    by (simp add: filter_empty_conv)
  then show ?thesis by (simp add: LeafCount_def Suc_le_eq)
qed


lemma number_preorder_dom:
  "number_preorder nodes (pid, rmap, c) = (pid', rmap', c') \<Longrightarrow>
   dom pid' = dom pid \<union> node_index ` set nodes"
  by (induction nodes arbitrary: pid rmap c) auto

text \<open>The values of the first-occurrence map are indices of the Euler vector.\<close>

definition indices_below :: "(int \<rightharpoonup> int) \<Rightarrow> int \<Rightarrow> bool" where
  "indices_below m len = (\<forall>v \<in> ran m. 0 \<le> v \<and> v < len)"

lemma indices_below_upd:
  "indices_below m len \<Longrightarrow> 0 \<le> v \<Longrightarrow> v < len \<Longrightarrow> indices_below (m(k \<mapsto> v)) len"
  by (auto simp: indices_below_def ran_def)

lemma indices_below_mono: "indices_below m len \<Longrightarrow> len \<le> len' \<Longrightarrow> indices_below m len'"
  by (fastforce simp: indices_below_def)

lemma collect_euler_ok:
  "node_index ` set nodes \<subseteq> dom pid \<Longrightarrow> c = int (length euler) \<Longrightarrow> indices_below p2e c \<Longrightarrow>
   \<exists>euler' p2e'. collect_euler pid nodes (euler, p2e, c)
        = Inr (euler', p2e', int (length euler')) \<and>
      length euler' = length euler + length nodes \<and> indices_below p2e' (int (length euler'))"
proof (induction nodes arbitrary: euler p2e c)
  case Nil
  then show ?case by simp
next
  case (Cons node nodes)
  from Cons.prems(1) obtain p_id where p: "pid (node_index node) = Some p_id" by auto
  let ?p2e = "if p2e p_id \<noteq> None then p2e else p2e(p_id \<mapsto> c)"
  have wider: "indices_below p2e (c + 1)"
    using Cons.prems(3) by (rule indices_below_mono) simp
  have "indices_below (p2e(p_id \<mapsto> c)) (c + 1)"
    using wider by (rule indices_below_upd) (use Cons.prems(2) in simp_all)
  with wider have below: "indices_below ?p2e (c + 1)" by simp
  from Cons.prems(1) have sub: "node_index ` set nodes \<subseteq> dom pid" by simp
  have len: "c + 1 = int (length (euler @ [p_id]))" using Cons.prems(2) by simp
  from Cons.IH [OF sub len below] p show ?case by auto
qed

lemma collect_leaves_length:
  "collect_leaves nodes (rmap, ids) = (rmap', ids') \<Longrightarrow>
   length ids' = length ids + length (filter IsLeaf nodes)"
  by (induction nodes arbitrary: rmap ids) (auto split: if_splits prod.splits)

text \<open>
  What the loop over the small tree enters: for every leaf, in order, the value the map
  holds for the name of the leaf, and 0 where it holds none.
\<close>

lemma collect_leaves_entries:
  "collect_leaves nodes (rmap, ids) = (rmap', ids') \<Longrightarrow>
   ids' = ids @ map (\<lambda>n. (case rmap (node_name n) of Some v \<Rightarrow> v | None \<Rightarrow> 0, True))
                  (filter IsLeaf nodes) \<and>
   (\<forall>k. rmap' k = (if k \<in> dom rmap then rmap k
                   else if k \<in> node_name ` set (filter IsLeaf nodes) then Some 0 else None))"
proof (induction nodes arbitrary: rmap ids)
  case Nil
  then show ?case by auto
next
  case (Cons node nodes)
  show ?case
  proof (cases "IsLeaf node")
    case False
    with Cons.prems have "collect_leaves nodes (rmap, ids) = (rmap', ids')" by simp
    from Cons.IH [OF this] False show ?thesis by simp
  next
    case True
    obtain v m where sub: "map_subscript rmap (node_name node) = (v, m)" by force
    with True Cons.prems have run: "collect_leaves nodes (m, ids @ [(v, True)]) = (rmap', ids')"
      by simp
    from sub have v: "v = (case rmap (node_name node) of Some v \<Rightarrow> v | None \<Rightarrow> 0)"
      and m: "m = (case rmap (node_name node) of Some v \<Rightarrow> rmap | None \<Rightarrow> rmap(node_name node \<mapsto> 0))"
      by (auto simp: map_subscript_def split: option.splits)
    have same: "(case m (node_name n) of Some v \<Rightarrow> v | None \<Rightarrow> 0)
                = (case rmap (node_name n) of Some v \<Rightarrow> v | None \<Rightarrow> 0)" for n
      using m by (auto split: option.splits)
    from Cons.IH [OF run] have
      ids: "ids' = (ids @ [(v, True)]) @ map (\<lambda>n. (case m (node_name n) of Some v \<Rightarrow> v | None \<Rightarrow> 0, True))
                  (filter IsLeaf nodes)"
      and maps: "\<forall>k. rmap' k = (if k \<in> dom m then m k
                   else if k \<in> node_name ` set (filter IsLeaf nodes) then Some 0 else None)"
      by blast+
    have "ids' = ids @ map (\<lambda>n. (case rmap (node_name n) of Some v \<Rightarrow> v | None \<Rightarrow> 0, True))
                  (filter IsLeaf (node # nodes))"
      using ids True v by (simp add: same)
    moreover have "\<forall>k. rmap' k = (if k \<in> dom rmap then rmap k
                   else if k \<in> node_name ` set (filter IsLeaf (node # nodes)) then Some 0 else None)"
      using maps m True by (auto split: option.splits simp: dom_def)
    ultimately show ?thesis by blast
  qed
qed

lemma map_subscript_below:
  "indices_below m len \<Longrightarrow> 0 < len \<Longrightarrow> map_subscript m k = (v, m') \<Longrightarrow>
   0 \<le> v \<and> v < len \<and> indices_below m' len"
proof (cases "m k")
  case None
  assume "indices_below m len" "0 < len" "map_subscript m k = (v, m')"
  with None indices_below_upd [of m len 0 k] show ?thesis
    by (simp add: map_subscript_def)
next
  case (Some w)
  assume "indices_below m len" "0 < len" "map_subscript m k = (v, m')"
  with Some show ?thesis
    by (auto simp: map_subscript_def indices_below_def ran_def)
qed


lemma query_step_ok:
  assumes rmq: "\<forall>i j. 0 \<le> i \<and> i < len \<and> 0 \<le> j \<and> j < len \<longrightarrow> 0 \<le> query i j \<and> query i j < len"
    and len: "len = int (length euler)" "0 < len"
    and below: "indices_below (preorder_to_euler_map st) len"
    and i: "i + 1 < length (preorder_ids st)"
  shows "\<exists>st' e. query_step query euler i st = Inr st' \<and>
           preorder_ids st' = preorder_ids st @ [(e, False)] \<and>
           length (queries st') = length (queries st) + 1 \<and>
           indices_below (preorder_to_euler_map st') len"
proof -
  obtain x m1 where s1:
    "map_subscript (preorder_to_euler_map st) (fst (preorder_ids st ! i)) = (x, m1)" by force
  obtain y m2 where s2: "map_subscript m1 (fst (preorder_ids st ! (i + 1))) = (y, m2)" by force
  from map_subscript_below [OF below len(2) s1] have x: "0 \<le> x" "x < len" and b1: "indices_below m1 len"
    by simp_all
  from map_subscript_below [OF b1 len(2) s2] have y: "0 \<le> y" "y < len" and b2: "indices_below m2 len"
    by simp_all
  from rmq x y have "0 \<le> query x y \<and> query x y < len" by blast
  with i s1 s2 b2 len(1) show ?thesis by (simp add: query_step_def)
qed

lemma query_loop_ok:
  assumes rmq: "\<forall>i j. 0 \<le> i \<and> i < len \<and> 0 \<le> j \<and> j < len \<longrightarrow> 0 \<le> query i j \<and> query i j < len"
    and len: "len = int (length euler)" "0 < len"
  shows "indices_below (preorder_to_euler_map st) len \<Longrightarrow> bound < length (preorder_ids st) \<Longrightarrow>
         i \<le> bound \<Longrightarrow> k = bound - i \<Longrightarrow>
         \<exists>st' anc. query_loop query euler bound i st = Inr st' \<and>
           preorder_ids st' = preorder_ids st @ anc \<and> length anc = bound - i \<and>
           (\<forall>e \<in> set anc. \<not> snd e) \<and>
           length (queries st') = length (queries st) + (bound - i)"
proof (induction k arbitrary: i st)
  case 0
  then have "\<not> i < bound" by simp
  then show ?case by (subst query_loop.simps) simp
next
  case (Suc k)
  then have lt: "i < bound" by simp
  with Suc.prems(2) have "i + 1 < length (preorder_ids st)" by simp
  from query_step_ok [OF rmq len Suc.prems(1) this] obtain st1 e where
    step: "query_step query euler i st = Inr st1"
    and ids1: "preorder_ids st1 = preorder_ids st @ [(e, False)]"
    and q1: "length (queries st1) = length (queries st) + 1"
    and b1: "indices_below (preorder_to_euler_map st1) len"
    by blast
  from ids1 Suc.prems(2) have bound1: "bound < length (preorder_ids st1)" by simp
  from lt have le1: "i + 1 \<le> bound" by simp
  from Suc.prems(4) have k: "k = bound - (i + 1)" by simp
  from Suc.IH [OF b1 bound1 le1 k] obtain st' anc where
    run: "query_loop query euler bound (i + 1) st1 = Inr st'"
    and ids: "preorder_ids st' = preorder_ids st1 @ anc"
    and anc: "length anc = bound - (i + 1)" "\<forall>e \<in> set anc. \<not> snd e"
    and q: "length (queries st') = length (queries st1) + (bound - (i + 1))"
    by blast
  have "query_loop query euler bound i st = Inr st'"
    using lt step run by (subst query_loop.simps) simp
  moreover have "preorder_ids st' = preorder_ids st @ ((e, False) # anc)"
    using ids ids1 by simp
  moreover have "length ((e, False) # anc) = bound - i" using anc(1) lt by simp
  moreover have "\<forall>e' \<in> set ((e, False) # anc). \<not> snd e'" using anc(2) by simp
  moreover have "length (queries st') = length (queries st) + (bound - i)"
    using q q1 lt by simp
  ultimately show ?case by blast
qed

lemma size_t_sub_one: "1 \<le> n \<Longrightarrow> size_t_sub n 1 = n - 1"
  by (simp add: size_t_sub_def)

lemma SpiderpigFunction_run:
  assumes rmq: "\<forall>a n i j. 0 \<le> i \<and> i < int (length a) \<and> 0 \<le> j \<and> j < int (length a) \<longrightarrow>
                  0 \<le> rmq_query a n i j \<and> rmq_query a n i j < int (length a)"
  shows "\<exists>r rmap leaves anc. SpiderpigFunction rmq_query reference_tree small_tree = Inr r \<and>
           reference_map r = rmap \<and>
           length (euler_ids r) = length (Eulertour_nodes reference_tree) \<and>
           rmq_length r = size_t_sub (4 * NodeCount reference_tree) 5 \<and>
           collect_leaves (Preorder_nodes small_tree)
             (fst (snd (number_preorder (Preorder_nodes reference_tree) (Map.empty, Map.empty, 0))), [])
             = (rmap, leaves) \<and>
           preorder_ids (final r) = sort (sort leaves @ anc) \<and>
           length leaves = LeafCount small_tree \<and>
           length anc = LeafCount small_tree - 1 \<and>
           (\<forall>e \<in> set leaves. snd e) \<and> (\<forall>e \<in> set anc. \<not> snd e) \<and>
           length (queries (final r)) = LeafCount small_tree - 1"
proof -
  obtain pid rmap c where np:
    "number_preorder (Preorder_nodes reference_tree) (Map.empty, Map.empty, 0) = (pid, rmap, c)"
    by (cases "number_preorder (Preorder_nodes reference_tree) (Map.empty, Map.empty, 0)") auto
  from number_preorder_dom [OF np] Eulertour_subset [of reference_tree]
  have "node_index ` set (Eulertour_nodes reference_tree) \<subseteq> dom pid" by auto
  from collect_euler_ok [OF this, of 0 "[]" Map.empty] obtain euler p2e where
    ce: "collect_euler pid (Eulertour_nodes reference_tree) ([], Map.empty, 0)
         = Inr (euler, p2e, int (length euler))"
    and le: "length euler = length (Eulertour_nodes reference_tree)"
    and below: "indices_below p2e (int (length euler))"
    by (auto simp: indices_below_def)
  from le Eulertour_nonempty [of reference_tree] have ne: "euler \<noteq> []" by auto
  then have pos: "0 < int (length euler)" by simp
  obtain rmap' leaves where cl: "collect_leaves (Preorder_nodes small_tree) (rmap, []) = (rmap', leaves)"
    by force
  from collect_leaves_length [OF cl] have ll: "length leaves = LeafCount small_tree"
    by (simp add: LeafCount_def)
  from collect_leaves_entries [OF cl] have flags: "\<forall>e \<in> set leaves. snd e" by auto
  note L = LeafCount_positive [of small_tree]
  let ?n = "size_t_sub (4 * NodeCount reference_tree) 5"
  let ?st = "\<lparr>preorder_to_euler_map = p2e, preorder_ids = sort leaves, queries = []\<rparr>"
  have q: "\<forall>i j. 0 \<le> i \<and> i < int (length euler) \<and> 0 \<le> j \<and> j < int (length euler) \<longrightarrow>
             0 \<le> rmq_query euler ?n i j \<and> rmq_query euler ?n i j < int (length euler)"
    using rmq by blast
  have "\<exists>st' anc. query_loop (rmq_query euler ?n) euler (LeafCount small_tree - 1) 0 ?st = Inr st' \<and>
           preorder_ids st' = preorder_ids ?st @ anc \<and> length anc = LeafCount small_tree - 1 - 0 \<and>
           (\<forall>e \<in> set anc. \<not> snd e) \<and>
           length (queries st') = length (queries ?st) + (LeafCount small_tree - 1 - 0)"
    by (rule query_loop_ok [OF q refl pos]) (use below ll L in simp_all)
  then obtain st' anc where
    run: "query_loop (rmq_query euler ?n) euler (LeafCount small_tree - 1) 0 ?st = Inr st'"
    and ids: "preorder_ids st' = sort leaves @ anc"
    and anc: "length anc = LeafCount small_tree - 1" "\<forall>e \<in> set anc. \<not> snd e"
    and qs: "length (queries st') = LeafCount small_tree - 1"
    by auto
  have size: "length (preorder_ids st') = size_t_sub (2 * LeafCount small_tree) 1"
    using ids anc(1) ll L by (simp add: size_t_sub_def)
  have "SpiderpigFunction rmq_query reference_tree small_tree
        = Inr \<lparr>reference_map = rmap', euler_ids = euler, rmq_length = ?n,
                final = st'\<lparr>preorder_ids := sort (preorder_ids st')\<rparr>\<rparr>"
    using np ce ne cl run size L by (simp add: SpiderpigFunction_def Let_def size_t_sub_def)
  with le cl np ids ll anc flags qs show ?thesis
    by (intro exI [of _ "\<lparr>reference_map = rmap', euler_ids = euler, rmq_length = ?n,
                final = st'\<lparr>preorder_ids := sort (preorder_ids st')\<rparr>\<rparr>"]
          exI [of _ rmap'] exI [of _ leaves] exI [of _ anc]) simp
qed


lemma fold_choice_mem:
  "fold (\<lambda>k best. if P k best then k else best) ks b \<in> insert b (set ks)"
  by (induction ks arbitrary: b) auto

lemma RMQ_scan_in_bounds:
  "\<forall>a n i j. 0 \<le> i \<and> i < int (length a) \<and> 0 \<le> j \<and> j < int (length a) \<longrightarrow>
     0 \<le> RMQ_scan a n i j \<and> RMQ_scan a n i j < int (length a)"
proof (intro allI impI)
  fix a :: "int list" and n :: nat and i j :: int
  assume b: "0 \<le> i \<and> i < int (length a) \<and> 0 \<le> j \<and> j < int (length a)"
  define ks where "ks = [nat i + 1 ..< nat j + 1]"
  define r where "r = fold (\<lambda>k best. if a ! k < a ! best then k else best) ks (nat i)"
  have "r \<in> insert (nat i) (set ks)" unfolding r_def by (rule fold_choice_mem)
  moreover have "\<forall>k \<in> set ks. k \<le> nat j" by (auto simp: ks_def)
  ultimately have "r = nat i \<or> r \<le> nat j" by auto
  with b have "r < length a" by auto
  then show "0 \<le> RMQ_scan a n i j \<and> RMQ_scan a n i j < int (length a)"
    by (simp add: RMQ_scan_def r_def ks_def)
qed

text \<open>The two runs on the reference tree \<open>((A,B),(C,D));\<close>, evaluated.\<close>

lemma SpiderpigFunction_AB:
  "map_sum id (\<lambda>r. (euler_ids r, rmq_length r, preorder_ids (final r), queries (final r)))
     (SpiderpigFunction RMQ_scan reference_ABCD small_AB)
   = Inr ([0, 1, 2, 1, 3, 1, 0, 4, 5, 4, 6, 4], 23, [(1, False), (2, True), (3, True)], [(2, 4)])"
  by code_simp

lemma SpiderpigFunction_AX:
  "map_sum id (\<lambda>r. (preorder_ids (final r), queries (final r), reference_map r ''X''))
     (SpiderpigFunction RMQ_scan reference_ABCD small_AX)
   = Inr ([(0, False), (0, True), (2, True)], [(0, 2)], Some 0)"
  by code_simp

lemma reference_ABCD_no_X: "reference_leaf_ids reference_ABCD ''X'' = None"
  by code_simp

lemma length_filter_sort: "length (filter P (sort xs)) = length (filter P xs)"
  by (simp add: filter_sort)

text \<open>
  C1. The claim: a leaf of the small tree whose name is absent from the reference map
  makes the check fail for the whole comparison, and the check does not proceed with a
  default preorder id. On the reference tree \<open>((A,B),(C,D));\<close> and the small tree
  \<open>(A,X);\<close> the function returns: \<open>X\<close> is entered into the map with the id 0, the
  leaf is entered as \<open>(0, true)\<close>, and the query loop runs on it.
\<close>

theorem absent_leaf_counterexample:
  "reference_leaf_ids reference_ABCD ''X'' = None \<and>
   map_sum id (\<lambda>r. (preorder_ids (final r), queries (final r), reference_map r ''X''))
     (SpiderpigFunction RMQ_scan reference_ABCD small_AX)
   = Inr ([(0, False), (0, True), (2, True)], [(0, 2)], Some 0)"
  using reference_ABCD_no_X SpiderpigFunction_AX by simp

text \<open>
  C1, amended. The function does not fail on a leaf of the small tree whose name is
  absent from the reference map: for any trees (and any RMQ structure whose answers are
  indices of the array) it returns, the entries of the leaves are the sorted list of
  the ids the reference map holds for the leaf names, with 0 for a name it does not
  hold, and every such name is in the map with the id 0 afterwards.
\<close>

theorem absent_leaf_gets_default_id:
  assumes "\<forall>a n i j. 0 \<le> i \<and> i < int (length a) \<and> 0 \<le> j \<and> j < int (length a) \<longrightarrow>
             0 \<le> rmq_query a n i j \<and> rmq_query a n i j < int (length a)"
  shows "\<exists>r. SpiderpigFunction rmq_query reference_tree small_tree = Inr r \<and>
           filter snd (preorder_ids (final r))
           = sort (map (\<lambda>n. (case reference_leaf_ids reference_tree (node_name n) of
                                Some v \<Rightarrow> v | None \<Rightarrow> 0, True))
                      (filter IsLeaf (Preorder_nodes small_tree))) \<and>
           (\<forall>n \<in> set (filter IsLeaf (Preorder_nodes small_tree)).
              reference_leaf_ids reference_tree (node_name n) = None \<longrightarrow>
              reference_map r (node_name n) = Some 0)"
proof -
  from SpiderpigFunction_run [OF assms, of reference_tree small_tree]
  obtain r rmap leaves anc where
    run: "SpiderpigFunction rmq_query reference_tree small_tree = Inr r"
    and rmap: "reference_map r = rmap"
    and cl: "collect_leaves (Preorder_nodes small_tree) (reference_leaf_ids reference_tree, [])
             = (rmap, leaves)"
    and ids: "preorder_ids (final r) = sort (sort leaves @ anc)"
    and flags: "\<forall>e \<in> set leaves. snd e" "\<forall>e \<in> set anc. \<not> snd e"
    unfolding reference_leaf_ids_def by blast
  from collect_leaves_entries [OF cl] have
    entries: "leaves = map (\<lambda>n. (case reference_leaf_ids reference_tree (node_name n) of
                                   Some v \<Rightarrow> v | None \<Rightarrow> 0, True))
                         (filter IsLeaf (Preorder_nodes small_tree))"
    and maps: "\<forall>k. rmap k = (if k \<in> dom (reference_leaf_ids reference_tree)
                   then reference_leaf_ids reference_tree k
                   else if k \<in> node_name ` set (filter IsLeaf (Preorder_nodes small_tree))
                   then Some 0 else None)"
    by simp_all
  have "filter snd (sort leaves @ anc) = sort leaves"
    using flags by (simp add: filter_sort)
  then have "filter snd (preorder_ids (final r)) = sort (sort leaves)"
    using ids by (simp add: filter_sort)
  then have a: "filter snd (preorder_ids (final r)) = sort leaves"
    by (simp add: sorted_sort_id [OF sorted_sort])
  have b: "\<forall>n \<in> set (filter IsLeaf (Preorder_nodes small_tree)).
              reference_leaf_ids reference_tree (node_name n) = None \<longrightarrow>
              reference_map r (node_name n) = Some 0"
    using maps rmap by (auto simp: dom_def)
  from run a b entries show ?thesis by blast
qed

theorem absent_leaf_gets_default_id_witness:
  "\<exists>r. SpiderpigFunction RMQ_scan reference_ABCD small_AX = Inr r \<and>
        filter snd (preorder_ids (final r)) = [(0, True), (2, True)] \<and>
        reference_map r ''X'' = Some 0"
proof -
  from absent_leaf_gets_default_id [OF RMQ_scan_in_bounds, of reference_ABCD small_AX]
  obtain r where run: "SpiderpigFunction RMQ_scan reference_ABCD small_AX = Inr r" by blast
  with SpiderpigFunction_AX show ?thesis by simp
qed

text \<open>
  C4. Starting from the \<open>L\<close> sorted leaf entries of the small tree, the query loop
  makes exactly \<open>L - 1\<close> calls of \<open>rmq.query\<close> and appends one ancestor entry at
  each, so that the vector holds the \<open>L\<close> leaf entries and \<open>L - 1\<close> ancestor entries,
  \<open>2 * L - 1\<close> in all, and the assertion holds: the function returns. This is for any
  two trees, and any RMQ structure whose answers are indices of the array.
\<close>

theorem query_loop_counts:
  assumes "\<forall>a n i j. 0 \<le> i \<and> i < int (length a) \<and> 0 \<le> j \<and> j < int (length a) \<longrightarrow>
             0 \<le> rmq_query a n i j \<and> rmq_query a n i j < int (length a)"
  shows "\<exists>r. SpiderpigFunction rmq_query reference_tree small_tree = Inr r \<and>
           length (queries (final r)) = LeafCount small_tree - 1 \<and>
           length (filter snd (preorder_ids (final r))) = LeafCount small_tree \<and>
           length (filter (\<lambda>e. \<not> snd e) (preorder_ids (final r))) = LeafCount small_tree - 1 \<and>
           int (length (preorder_ids (final r))) = 2 * int (LeafCount small_tree) - 1"
proof -
  from SpiderpigFunction_run [OF assms, of reference_tree small_tree]
  obtain r leaves anc where
    run: "SpiderpigFunction rmq_query reference_tree small_tree = Inr r"
    and ids: "preorder_ids (final r) = sort (sort leaves @ anc)"
    and len: "length leaves = LeafCount small_tree" "length anc = LeafCount small_tree - 1"
    and flags: "\<forall>e \<in> set leaves. snd e" "\<forall>e \<in> set anc. \<not> snd e"
    and qs: "length (queries (final r)) = LeafCount small_tree - 1"
    by blast
  note L = LeafCount_positive [of small_tree]
  have t: "length (filter snd (preorder_ids (final r))) = LeafCount small_tree"
    using ids len flags by (simp add: length_filter_sort)
  have f: "length (filter (\<lambda>e. \<not> snd e) (preorder_ids (final r))) = LeafCount small_tree - 1"
    using ids len flags by (simp add: length_filter_sort)
  have all: "int (length (preorder_ids (final r))) = 2 * int (LeafCount small_tree) - 1"
    using ids len L by simp
  from run qs t f all show ?thesis by blast
qed

theorem query_loop_counts_witness:
  "\<exists>r. SpiderpigFunction RMQ_scan reference_ABCD small_AB = Inr r \<and>
        queries (final r) = [(2, 4)] \<and>
        preorder_ids (final r) = [(1, False), (2, True), (3, True)] \<and>
        length (queries (final r)) = LeafCount small_AB - 1 \<and>
        int (length (preorder_ids (final r))) = 2 * int (LeafCount small_AB) - 1"
proof -
  from query_loop_counts [OF RMQ_scan_in_bounds, of reference_ABCD small_AB]
  obtain r where run: "SpiderpigFunction RMQ_scan reference_ABCD small_AB = Inr r"
    and "length (queries (final r)) = LeafCount small_AB - 1"
    and "int (length (preorder_ids (final r))) = 2 * int (LeafCount small_AB) - 1"
    by blast
  with SpiderpigFunction_AB show ?thesis by simp
qed

text \<open>
  C5. The claim: the Euler tour of a reference tree with \<open>N\<close> nodes pushes exactly
  \<open>4 * N - 5\<close> preorder ids, the length the function gives to the constructor of
  \<open>RMQ_succinct\<close>. The tour pushes one id for each direction of each edge,
  \<open>2 * N - 2\<close> in all (one id for a tree of a single node), and that is never the
  length \<open>4 * N - 5\<close> the constructor is given.
\<close>

theorem euler_ids_length:
  assumes "\<forall>a n i j. 0 \<le> i \<and> i < int (length a) \<and> 0 \<le> j \<and> j < int (length a) \<longrightarrow>
             0 \<le> rmq_query a n i j \<and> rmq_query a n i j < int (length a)"
  shows "\<exists>r. SpiderpigFunction rmq_query reference_tree small_tree = Inr r \<and>
           length (euler_ids r)
           = (if node_children reference_tree = [] then 1 else 2 * NodeCount reference_tree - 2) \<and>
           rmq_length r = size_t_sub (4 * NodeCount reference_tree) 5 \<and>
           length (euler_ids r) \<noteq> rmq_length r"
proof -
  from SpiderpigFunction_run [OF assms, of reference_tree small_tree]
  obtain r where
    run: "SpiderpigFunction rmq_query reference_tree small_tree = Inr r"
    and le: "length (euler_ids r) = length (Eulertour_nodes reference_tree)"
    and n: "rmq_length r = size_t_sub (4 * NodeCount reference_tree) 5"
    by blast
  note tour = length_Eulertour [of reference_tree]
  have "length (Eulertour_nodes reference_tree) \<noteq> size_t_sub (4 * NodeCount reference_tree) 5"
  proof (cases "node_children reference_tree = []")
    case True
    then have "NodeCount reference_tree = 1"
      by (cases reference_tree) (simp add: NodeCount_def)
    with True tour show ?thesis by (simp add: size_t_sub_def)
  next
    case False
    then obtain c cs where "node_children reference_tree = c # cs"
      by (cases "node_children reference_tree") auto
    then have "2 \<le> NodeCount reference_tree"
      using Preorder_nonempty [of c]
      by (cases reference_tree) (simp add: NodeCount_def del: length_greater_0_conv)
    with False tour show ?thesis by (simp add: size_t_sub_def)
  qed
  with run le n tour show ?thesis by simp
qed

theorem euler_ids_length_witness:
  "\<exists>r. SpiderpigFunction RMQ_scan reference_ABCD small_AB = Inr r \<and>
        NodeCount reference_ABCD = 7 \<and>
        euler_ids r = [0, 1, 2, 1, 3, 1, 0, 4, 5, 4, 6, 4] \<and> length (euler_ids r) = 12 \<and>
        rmq_length r = 23"
proof -
  from euler_ids_length [OF RMQ_scan_in_bounds, of reference_ABCD small_AB]
  obtain r where run: "SpiderpigFunction RMQ_scan reference_ABCD small_AB = Inr r" by blast
  have "NodeCount reference_ABCD = 7" by code_simp
  with run SpiderpigFunction_AB show ?thesis by simp
qed

subsection \<open>Lexer: the error token\<close>

lemma pushes_none: "scanned lx lx' [] \<Longrightarrow> pushes_at_most_one lx lx'"
  unfolding pushes_at_most_one_def by fastforce

lemma pushes_one: "scanned lx lx' [] \<Longrightarrow> pushes_at_most_one lx (PushToken_value lx' t start v)"
  unfolding pushes_at_most_one_def using scanned_push by fastforce

lemma pushes_NextChar: "pushes_at_most_one lx lx' \<Longrightarrow> pushes_at_most_one lx (NextChar lx')"
  unfolding pushes_at_most_one_def using scanned_NextChar by blast

lemma pushes_after_NextChar: "pushes_at_most_one (NextChar lx) lx' \<Longrightarrow> pushes_at_most_one lx lx'"
  unfolding pushes_at_most_one_def
  using scanned_trans [OF advances_scanned [OF advances_NextChar]] by fastforce

lemma ScanSymbol_pushes: "pushes_at_most_one lx (fst (ScanSymbol lx))"
  by (simp add: ScanSymbol_def Let_def PushToken_def pushes_one advances_scanned scan_type_advances)

lemma ScanUnknown_pushes: "pushes_at_most_one lx (fst (ScanUnknown lx))"
  by (simp add: ScanUnknown_def Let_def PushToken_def pushes_one advances_scanned scan_type_advances)

lemma ScanBracket_pushes: "pushes_at_most_one lx (fst (ScanBracket lx))"
  by (simp add: ScanBracket_def PushToken_def pushes_one pushes_NextChar scanned_refl)

lemma ScanNumber_pushes: "pushes_at_most_one lx (fst (ScanNumber lx))"
proof -
  obtain lx1 err where loop: "ScanNumber_loop lx (GetPosition lx) False False = (lx1, err)" by force
  from ScanNumber_loop_advances [OF loop] have "scanned lx lx1 []" by (rule advances_scanned)
  with loop show ?thesis
    by (simp add: ScanNumber_def Let_def PushToken_def pushes_one)
qed

lemma ScanNumber_virtual_pushes:
  "ScanNumber_virtual lx = Inr (lx', r) \<Longrightarrow> pushes_at_most_one lx lx'"
  using ScanNumber_pushes [of lx] ScanNumber_pushes [of "NextChar lx"]
  by (auto simp: ScanNumber_virtual_def split: LexerClass.splits if_splits
      intro: pushes_after_NextChar)

lemma ScanString_pushes: "pushes_at_most_one lx (fst (ScanString sd sra lx))"
proof -
  let ?lx = "NextChar lx"
  have first: "scanned lx ?lx []" by (simp add: advances_scanned advances_NextChar)
  obtain lx1 j e q where loop:
    "ScanString_loop ?lx (GetChar lx) False False False = (lx1, j, e, q)"
    by (cases "ScanString_loop ?lx (GetChar lx) False False False") auto
  from ScanString_loop_advances [OF loop] have "advances lx lx1"
    by (rule advances_step)
  then have "scanned lx lx1 []" by (rule advances_scanned)
  with first loop show ?thesis
    by (simp add: ScanString_def Let_def pushes_one)
qed

lemma ScanOperator_pushes:
  "ScanOperator lx = Inr (lx', r) \<Longrightarrow> pushes_at_most_one lx lx'"
  using ScanNumber_virtual_pushes [of lx lx' r]
  by (auto simp: ScanOperator_def PushToken_def pushes_one pushes_NextChar scanned_refl
      split: if_splits)

lemma ScanTag_pushes:
  "ScanTag lx = Inr (lx', r) \<Longrightarrow> pushes_at_most_one lx lx'"
proof (cases "lx_class lx")
  case BaseLexer
  assume "ScanTag lx = Inr (lx', r)"
  with BaseLexer show ?thesis by (simp add: ScanTag_def pushes_none scanned_refl)
next
  case NewickLexer
  assume run: "ScanTag lx = Inr (lx', r)"
  obtain lx1 f where sc: "ScanFromTo lx ''{'' ''}'' = (lx1, f)" by force
  from ScanFromTo_result [OF sc] have adv: "scanned lx lx1 []"
    by (auto intro: advances_scanned)
  note one = pushes_one [OF adv] pushes_one [OF scanned_refl [of lx]] pushes_none [OF adv]
  from run NewickLexer sc one show ?thesis
    by (auto simp: ScanTag_def Let_def PushToken_def split: if_splits)
qed

lemma no_error_append [simp]: "no_error (xs @ ys) = (no_error xs \<and> no_error ys)"
  by (simp add: no_error_def)

lemma no_error_Nil [simp]: "no_error []"
  by (simp add: no_error_def)

lemma no_error_butlast: "no_error ts \<Longrightarrow> no_error (butlast ts)"
  by (auto simp: no_error_def list_all_iff dest: in_set_butlastD)

lemma no_error_only_last: "no_error ts \<Longrightarrow> error_only_last ts"
  by (simp add: error_only_last_def no_error_butlast)

lemma error_only_last_append:
  "no_error ts \<Longrightarrow> error_only_last new \<Longrightarrow> error_only_last (ts @ new)"
  by (cases new) (simp_all add: error_only_last_def butlast_append no_error_butlast)

lemma error_only_last_one: "length new \<le> 1 \<Longrightarrow> error_only_last new"
  by (cases new) (simp_all add: error_only_last_def)

lemma error_only_last_push: "no_error ts \<Longrightarrow> length new \<le> 1 \<Longrightarrow> error_only_last (ts @ new)"
  by (simp add: error_only_last_append error_only_last_one)

lemma no_error_if_last:
  "error_only_last ts \<Longrightarrow> ts = [] \<or> \<not> IsError (last ts) \<Longrightarrow> no_error ts"
  by (cases ts rule: rev_cases) (simp_all add: error_only_last_def no_error_def)

text \<open>
  The loop over whitespace and comments pushes tokens that are no error tokens, but for
  the last of them.
\<close>

lemma skip_white_comments_tokens:
  "\<exists>ts. scanned lx (skip_white_comments lx) ts \<and> error_only_last ts"
proof (induction lx rule: skip_white_comments.induct)
  case (1 lx)
  let ?w = "fst (ScanWhitespace lx)"
  let ?c = "fst (ScanComment ?w)"
  from ScanWhitespace_result [OF prod.collapse [symmetric], of lx]
  obtain tw where w: "scanned lx ?w tw" "length tw \<le> 1" "\<forall>t \<in> set tw. tk_type t = kWhite"
    by blast
  then have nw: "no_error tw" by (auto simp: no_error_def IsError_def list_all_iff)
  from ScanComment_result [OF prod.collapse [symmetric], of ?w]
  obtain tc where c: "scanned ?w ?c tc" "length tc \<le> 1"
    "snd (ScanComment ?w) \<longrightarrow> (\<forall>t \<in> set tc. tk_type t = kComment)"
    by blast
  show ?case
  proof (cases "snd (ScanWhitespace lx)")
    case True
    from "1.IH"(1) [OF True] obtain ts where
      "scanned ?w (skip_white_comments ?w) ts" "error_only_last ts" by blast
    then have "scanned lx (skip_white_comments ?w) (tw @ ts)" "error_only_last (tw @ ts)"
      using w(1) nw by (auto intro: scanned_trans error_only_last_append)
    with True have "scanned lx (skip_white_comments lx) (tw @ ts) \<and> error_only_last (tw @ ts)"
      by (subst skip_white_comments.simps) simp
    then show ?thesis by blast
  next
    case nowhite: False
    show ?thesis
    proof (cases "snd (ScanComment ?w)")
      case True
      with c(3) have nc: "no_error tc" by (auto simp: no_error_def IsError_def list_all_iff)
      from "1.IH"(2) [OF nowhite True] obtain ts where
        rest: "scanned ?c (skip_white_comments ?c) ts" "error_only_last ts" by blast
      from scanned_trans [OF scanned_trans [OF w(1) c(1)] rest(1)]
      have "scanned lx (skip_white_comments ?c) (tw @ tc @ ts)" by simp
      moreover have "error_only_last (tw @ tc @ ts)"
        using nw nc rest(2) by (simp add: error_only_last_append)
      ultimately have "scanned lx (skip_white_comments lx) (tw @ tc @ ts)
                       \<and> error_only_last (tw @ tc @ ts)"
        using nowhite True by (subst skip_white_comments.simps) simp
      then show ?thesis by blast
    next
      case False
      from scanned_trans [OF w(1) c(1)] have "scanned lx ?c (tw @ tc)" .
      moreover have "error_only_last (tw @ tc)"
        using nw c(2) by (rule error_only_last_push)
      ultimately have "scanned lx (skip_white_comments lx) (tw @ tc) \<and> error_only_last (tw @ tc)"
        using nowhite False by (subst skip_white_comments.simps) simp
      then show ?thesis by blast
    qed
  qed
qed



lemma ProcessStep_switch_pushes:
  "ProcessStep_switch sd sra t lx = Inr (lx', r) \<Longrightarrow> pushes_at_most_one lx lx'"
  using ScanSymbol_pushes [of lx] ScanString_pushes [of lx sd sra] ScanBracket_pushes [of lx]
    ScanUnknown_pushes [of lx] ScanNumber_virtual_pushes [of lx lx' r]
    ScanOperator_pushes [of lx lx' r] ScanTag_pushes [of lx lx' r]
  by (cases t) (auto simp: ProcessStep_switch_def)

lemma ProcessStep_tokens:
  assumes clean: "no_error (lx_tokens lx)"
    and step: "ProcessStep sd sra lx = Inr (lx', r)"
  shows "error_only_last (lx_tokens lx') \<and> (r \<longrightarrow> no_error (lx_tokens lx'))"
proof (cases "IsEnd lx")
  case True
  with step clean show ?thesis by (simp add: ProcessStep_def no_error_only_last)
next
  case notend: False
  let ?lx1 = "skip_white_comments lx"
  from skip_white_comments_tokens [of lx] obtain ts where
    "scanned lx ?lx1 ts" "error_only_last ts" by blast
  with clean have eol1: "error_only_last (lx_tokens ?lx1)"
    by (simp add: scanned_tokens error_only_last_append)
  show ?thesis
  proof (cases "lx_tokens ?lx1 \<noteq> [] \<and> IsError (last (lx_tokens ?lx1))")
    case True
    with step notend eol1 show ?thesis by (simp add: ProcessStep_def Let_def)
  next
    case noerr: False
    with eol1 have clean1: "no_error (lx_tokens ?lx1)" by (auto intro: no_error_if_last)
    show ?thesis
    proof (cases "IsEnd ?lx1")
      case True
      with step notend noerr clean1 show ?thesis
        by (simp add: ProcessStep_def Let_def no_error_only_last)
    next
      case notend1: False
      show ?thesis
      proof (cases "GetCharType ?lx1 = kError")
        case True
        with step notend noerr notend1 have
          "lx' = PushToken_value ?lx1 kError (GetPosition ?lx1) ''Invalid character.''" "\<not> r"
          by (simp_all add: ProcessStep_def Let_def)
        with clean1 show ?thesis
          by (simp add: PushToken_value_def error_only_last_push)
      next
        case False
        with step notend noerr notend1 obtain lx2 r2 where
          sw: "ProcessStep_switch sd sra (GetCharType ?lx1) ?lx1 = Inr (lx2, r2)"
          and res: "lx' = lx2" "r = (\<not> (lx_tokens lx2 = [] \<or> IsError (last (lx_tokens lx2))))"
          by (auto simp: ProcessStep_def Let_def split: sum.splits if_splits)
        from ProcessStep_switch_pushes [OF sw] obtain new where
          "scanned ?lx1 lx2 new" "length new \<le> 1"
          unfolding pushes_at_most_one_def by blast
        with clean1 have eol2: "error_only_last (lx_tokens lx2)"
          by (simp add: scanned_tokens error_only_last_push)
        with res show ?thesis by (auto intro: no_error_if_last)
      qed
    qed
  qed
qed


lemma ProcessString_loop_tokens:
  assumes run: "ProcessString_loop sd sra lx = Some y"
  shows "no_error (lx_tokens lx) \<longrightarrow>
         (\<forall>lx' r. y = Inr (lx', r) \<longrightarrow> error_only_last (lx_tokens lx'))"
proof (rule ProcessString_loop.raw_induct
    [where P = "\<lambda>sd sra lx y. no_error (lx_tokens lx) \<longrightarrow>
         (\<forall>lx' r. y = Inr (lx', r) \<longrightarrow> error_only_last (lx_tokens lx'))", OF _ run])
  fix loop :: "(string \<Rightarrow> string) \<Rightarrow> (string \<Rightarrow> string \<Rightarrow> string \<Rightarrow> string) \<Rightarrow> Lexer \<Rightarrow>
      (error + Lexer \<times> bool) option"
    and sd sra lx y
  assume IH: "\<And>sd sra lx y. loop sd sra lx = Some y \<Longrightarrow>
      no_error (lx_tokens lx) \<longrightarrow> (\<forall>lx' r. y = Inr (lx', r) \<longrightarrow> error_only_last (lx_tokens lx'))"
  assume eq: "(if \<not> IsEnd lx
      then (if isl (ProcessStep sd sra lx) then Some (Inl (projl (ProcessStep sd sra lx)))
            else if \<not> snd (projr (ProcessStep sd sra lx))
            then Some (Inr (fst (projr (ProcessStep sd sra lx)),
                            lx_tokens (fst (projr (ProcessStep sd sra lx))) = []))
            else loop sd sra (fst (projr (ProcessStep sd sra lx))))
      else Some (Inr (lx, True))) = Some y"
  show "no_error (lx_tokens lx) \<longrightarrow>
         (\<forall>lx' r. y = Inr (lx', r) \<longrightarrow> error_only_last (lx_tokens lx'))"
  proof (intro impI allI)
    fix lx' r
    assume clean: "no_error (lx_tokens lx)" and y: "y = Inr (lx', r)"
    show "error_only_last (lx_tokens lx')"
    proof (cases "IsEnd lx")
      case True
      with eq y clean show ?thesis by (simp add: no_error_only_last)
    next
      case notend: False
      show ?thesis
      proof (cases "ProcessStep sd sra lx")
        case (Inl e)
        with eq notend y show ?thesis by simp
      next
        case (Inr p)
        obtain lx1 r1 where p: "p = (lx1, r1)" by force
        from ProcessStep_tokens [OF clean Inr [unfolded p]]
        have eol: "error_only_last (lx_tokens lx1)" and ok: "r1 \<longrightarrow> no_error (lx_tokens lx1)"
          by simp_all
        show ?thesis
        proof (cases r1)
          case True
          with eq notend Inr p have "loop sd sra lx1 = Some y" by simp
          from IH [OF this] ok True y show ?thesis by simp
        next
          case False
          with eq notend Inr p y eol show ?thesis by simp
        qed
      qed
    qed
  qed
qed

lemma ProcessStep_repeat_tokens:
  assumes run: "ProcessStep_repeat sd sra lx = Some y"
  shows "no_error (lx_tokens lx) \<longrightarrow> (\<forall>lx'. y = Inr lx' \<longrightarrow> error_only_last (lx_tokens lx'))"
proof (rule ProcessStep_repeat.raw_induct
    [where P = "\<lambda>sd sra lx y. no_error (lx_tokens lx) \<longrightarrow>
         (\<forall>lx'. y = Inr lx' \<longrightarrow> error_only_last (lx_tokens lx'))", OF _ run])
  fix rep :: "(string \<Rightarrow> string) \<Rightarrow> (string \<Rightarrow> string \<Rightarrow> string \<Rightarrow> string) \<Rightarrow> Lexer \<Rightarrow>
      (error + Lexer) option"
    and sd sra lx y
  assume IH: "\<And>sd sra lx y. rep sd sra lx = Some y \<Longrightarrow>
      no_error (lx_tokens lx) \<longrightarrow> (\<forall>lx'. y = Inr lx' \<longrightarrow> error_only_last (lx_tokens lx'))"
  assume eq: "(if isl (ProcessStep sd sra lx) then Some (Inl (projl (ProcessStep sd sra lx)))
      else if snd (projr (ProcessStep sd sra lx))
      then rep sd sra (fst (projr (ProcessStep sd sra lx)))
      else Some (Inr (fst (projr (ProcessStep sd sra lx))))) = Some y"
  show "no_error (lx_tokens lx) \<longrightarrow> (\<forall>lx'. y = Inr lx' \<longrightarrow> error_only_last (lx_tokens lx'))"
  proof (intro impI allI)
    fix lx'
    assume clean: "no_error (lx_tokens lx)" and y: "y = Inr lx'"
    show "error_only_last (lx_tokens lx')"
    proof (cases "ProcessStep sd sra lx")
      case (Inl e)
      with eq y show ?thesis by simp
    next
      case (Inr p)
      obtain lx1 r1 where p: "p = (lx1, r1)" by force
      from ProcessStep_tokens [OF clean Inr [unfolded p]]
      have eol: "error_only_last (lx_tokens lx1)" and ok: "r1 \<longrightarrow> no_error (lx_tokens lx1)"
        by simp_all
      show ?thesis
      proof (cases r1)
        case True
        with eq Inr p have "rep sd sra lx1 = Some y" by simp
        from IH [OF this] ok True y show ?thesis by simp
      next
        case False
        with eq Inr p y eol show ?thesis by simp
      qed
    qed
  qed
qed

lemma error_only_last_index:
  "error_only_last ts \<longleftrightarrow> (\<forall>i < length ts. IsError (ts ! i) \<longrightarrow> i + 1 = length ts)"
proof (cases ts rule: rev_cases)
  case Nil
  then show ?thesis by (simp add: error_only_last_def)
next
  case (snoc ys y)
  have "no_error ys \<longleftrightarrow> (\<forall>i < length ys. \<not> IsError (ys ! i))"
    by (simp add: no_error_def list_all_length)
  also have "\<dots> \<longleftrightarrow> (\<forall>i < length (ys @ [y]). IsError ((ys @ [y]) ! i) \<longrightarrow> i + 1 = length (ys @ [y]))"
    by (auto simp: nth_append less_Suc_eq)
  finally show ?thesis using snoc by (simp add: error_only_last_def)
qed

lemma error_only_last_count: "error_only_last ts \<Longrightarrow> length (filter IsError ts) \<le> 1"
proof (cases ts rule: rev_cases)
  case Nil
  then show ?thesis by simp
next
  case (snoc ys y)
  assume "error_only_last ts"
  with snoc have "filter IsError ys = []"
    by (auto simp: error_only_last_def no_error_def list_all_iff filter_empty_conv)
  with snoc show ?thesis by simp
qed

text \<open>
  C3. For every input text and every lexer, the token list that \<open>ProcessString\<close>
  leaves, whether it scans the whole text or runs stepwise with \<open>ProcessStep\<close>
  called until it returns false, holds at most one error token, and an error token in
  it is its last element.
\<close>

theorem error_token_is_last:
  "(ProcessString sd sra lx txt False = Some (Inr (lx', r)) \<longrightarrow>
      length (filter IsError (lx_tokens lx')) \<le> 1 \<and>
      (\<forall>i < length (lx_tokens lx'). IsError (lx_tokens lx' ! i) \<longrightarrow> i + 1 = length (lx_tokens lx')))
   \<and>
   (ProcessString_stepwise sd sra lx txt = Some (Inr lx'') \<longrightarrow>
      length (filter IsError (lx_tokens lx'')) \<le> 1 \<and>
      (\<forall>i < length (lx_tokens lx''). IsError (lx_tokens lx'' ! i) \<longrightarrow> i + 1 = length (lx_tokens lx'')))"
proof (intro conjI impI)
  have init: "no_error (lx_tokens (Init lx txt))" by (simp add: Init_def)
  {
    assume "ProcessString sd sra lx txt False = Some (Inr (lx', r))"
    then have "ProcessString_loop sd sra (Init lx txt) = Some (Inr (lx', r))"
      by (simp add: ProcessString_def)
    from ProcessString_loop_tokens [OF this] init have a: "error_only_last (lx_tokens lx')" by blast
    from a show "length (filter IsError (lx_tokens lx')) \<le> 1" by (rule error_only_last_count)
    from a show "\<forall>i < length (lx_tokens lx'). IsError (lx_tokens lx' ! i) \<longrightarrow> i + 1 = length (lx_tokens lx')"
      by (simp only: error_only_last_index)
  }
  {
    assume run: "ProcessString_stepwise sd sra lx txt = Some (Inr lx'')"
    have b: "error_only_last (lx_tokens lx'')"
    proof (cases "ProcessStep sd sra (Init lx txt)")
      case (Inl e)
      with run show ?thesis by (simp add: ProcessString_stepwise_def ProcessString_def)
    next
      case (Inr p)
      obtain lx1 r1 where p: "p = (lx1, r1)" by force
      from ProcessStep_tokens [OF init Inr [unfolded p]]
      have eol: "error_only_last (lx_tokens lx1)" and ok: "r1 \<longrightarrow> no_error (lx_tokens lx1)"
        by simp_all
      show ?thesis
      proof (cases r1)
        case True
        with run Inr p have "ProcessStep_repeat sd sra lx1 = Some (Inr lx'')"
          by (simp add: ProcessString_stepwise_def ProcessString_def)
        from ProcessStep_repeat_tokens [OF this] ok True show ?thesis by blast
      next
        case False
        with run Inr p eol show ?thesis
          by (simp add: ProcessString_stepwise_def ProcessString_def)
      qed
    qed
    from b show "length (filter IsError (lx_tokens lx'')) \<le> 1" by (rule error_only_last_count)
    from b show "\<forall>i < length (lx_tokens lx''). IsError (lx_tokens lx'' ! i) \<longrightarrow> i + 1 = length (lx_tokens lx'')"
      by (simp only: error_only_last_index)
  }
qed

lemma newick_error_run:
  "map_option (map_sum id (\<lambda>p. (map tk_type (lx_tokens (fst p)), snd p)))
     (ProcessString example_deescape StringReplaceAll_char newick_lexer ''(A, ]B);'' False)
   = Some (Inr ([kBracket, kSymbol, kOperator, kError], False))"
  by code_simp

lemma newick_error_run_stepwise:
  "map_option (map_sum id (\<lambda>lx. map tk_type (lx_tokens lx)))
     (ProcessString_stepwise example_deescape StringReplaceAll_char newick_lexer ''(A, ]B);'')
   = Some (Inr [kBracket, kSymbol, kOperator, kError])"
  by code_simp

lemma map_option_map_sum_InrD:
  "map_option (map_sum f g) x = Some (Inr v) \<Longrightarrow> \<exists>y. x = Some (Inr y) \<and> g y = v"
  by (cases x) (auto simp: map_sum_def split: sum.splits)

theorem error_token_is_last_witness:
  "\<exists>lx' lx''.
     ProcessString example_deescape StringReplaceAll_char newick_lexer ''(A, ]B);'' False
       = Some (Inr (lx', False)) \<and>
     map tk_type (lx_tokens lx') = [kBracket, kSymbol, kOperator, kError] \<and>
     length (filter IsError (lx_tokens lx')) \<le> 1 \<and>
     ProcessString_stepwise example_deescape StringReplaceAll_char newick_lexer ''(A, ]B);''
       = Some (Inr lx'') \<and>
     map tk_type (lx_tokens lx'') = [kBracket, kSymbol, kOperator, kError] \<and>
     length (filter IsError (lx_tokens lx'')) \<le> 1"
proof -
  from map_option_map_sum_InrD [OF newick_error_run] obtain lx' where
    a: "ProcessString example_deescape StringReplaceAll_char newick_lexer ''(A, ]B);'' False
        = Some (Inr (lx', False))"
    and ta: "map tk_type (lx_tokens lx') = [kBracket, kSymbol, kOperator, kError]"
    by force
  from map_option_map_sum_InrD [OF newick_error_run_stepwise] obtain lx'' where
    b: "ProcessString_stepwise example_deescape StringReplaceAll_char newick_lexer ''(A, ]B);''
        = Some (Inr lx'')"
    and tb: "map tk_type (lx_tokens lx'') = [kBracket, kSymbol, kOperator, kError]"
    by force
  from error_token_is_last [of example_deescape StringReplaceAll_char newick_lexer
      "''(A, ]B);''" lx' False lx''] a b
  have "length (filter IsError (lx_tokens lx')) \<le> 1"
    and "length (filter IsError (lx_tokens lx'')) \<le> 1" by simp_all
  with a ta b tb show ?thesis
    by (intro exI [of _ lx'] exI [of _ lx'']) (simp only: simp_thms)
qed

lemma newick_tokens_A_B:
  "map_option (map_sum id (\<lambda>p. (lx_tokens (fst p), snd p)))
     (ProcessString example_deescape StringReplaceAll_char newick_lexer ''(A,B;'' False)
   = Some (Inr (tokens_A_B, True))"
  by code_simp

subsection \<open>Lexer: the number scanner\<close>

lemma CharMatch_e: "CharMatch c CHR ''e'' \<longleftrightarrow> c = CHR ''e'' \<or> c = CHR ''E''"
  by (auto simp: CharMatch_def to_lower_def split: if_splits)

lemma at_char:
  assumes "drop (lx_itr lx) (lx_text lx) = c # rest"
  shows "\<not> IsEnd lx" and "GetChar lx = c"
    and "drop (lx_itr (NextChar lx)) (lx_text (NextChar lx)) = rest"
    and "IsEnd_at lx 1 \<longleftrightarrow> rest = []"
    and "rest \<noteq> [] \<Longrightarrow> GetChar_at lx 1 = hd rest"
proof -
  from assms have lt: "lx_itr lx < length (lx_text lx)"
    by (metis drop_all list.distinct(1) not_le)
  then show "\<not> IsEnd lx" by (simp add: IsEnd_def)
  from assms lt show "GetChar lx = c"
    by (simp add: GetChar_def GetChar_at_def hd_drop_conv_nth [symmetric])
  from assms show r: "drop (lx_itr (NextChar lx)) (lx_text (NextChar lx)) = rest"
    by (simp add: NextChar_def drop_Suc tl_drop [symmetric])
  from r show "IsEnd_at lx 1 \<longleftrightarrow> rest = []"
    by (auto simp: IsEnd_at_def NextChar_def)
  assume "rest \<noteq> []"
  with r have lt2: "Suc (lx_itr lx) < length (lx_text lx)"
    by (auto simp: NextChar_def)
  from r have "hd rest = hd (drop (Suc (lx_itr lx)) (lx_text lx))" by (simp add: NextChar_def)
  also have "\<dots> = lx_text lx ! Suc (lx_itr lx)" using lt2 by (rule hd_drop_conv_nth)
  finally show "GetChar_at lx 1 = hd rest"
    using lt2 by (simp add: GetChar_at_def nat_add_distrib)
qed

lemma ScanNumber_loop_digits:
  "drop (lx_itr lx) (lx_text lx) = ds @ rest \<Longrightarrow> \<forall>d \<in> set ds. CharIsDigit d \<Longrightarrow>
   ScanNumber_loop lx start fd fe
   = ScanNumber_loop (lx\<lparr>lx_itr := lx_itr lx + length ds\<rparr>) start fd fe"
proof (induction ds arbitrary: lx)
  case Nil
  then show ?case by simp
next
  case (Cons d ds)
  from Cons.prems(1) have here: "drop (lx_itr lx) (lx_text lx) = d # (ds @ rest)" by simp
  note at = at_char [OF here]
  from Cons.prems(2) have "CharIsDigit d" "\<forall>d \<in> set ds. CharIsDigit d" by simp_all
  with at(1,2) have "ScanNumber_loop lx start fd fe = ScanNumber_loop (NextChar lx) start fd fe"
    by (subst ScanNumber_loop.simps) simp
  also have "\<dots> = ScanNumber_loop ((NextChar lx)\<lparr>lx_itr := lx_itr (NextChar lx) + length ds\<rparr>) start fd fe"
    using at(3) \<open>\<forall>d \<in> set ds. CharIsDigit d\<close> by (rule Cons.IH)
  finally show ?case by (simp add: NextChar_def)
qed


lemma digit_not_special:
  "CharIsDigit c \<Longrightarrow> c \<noteq> CHR ''.'' \<and> \<not> CharMatch c CHR ''e'' \<and> \<not> CharIsSign c"
  by (auto simp: CharIsDigit_def CharMatch_e CharIsSign_def)

lemma sign_not_special:
  "CharIsSign c \<Longrightarrow> c \<noteq> CHR ''.'' \<and> \<not> CharMatch c CHR ''e'' \<and> \<not> CharIsDigit c"
  by (auto simp: CharIsDigit_def CharMatch_e CharIsSign_def)

lemma e_not_special:
  "CharMatch c CHR ''e'' \<Longrightarrow> c \<noteq> CHR ''.'' \<and> \<not> CharIsDigit c"
  by (auto simp: CharIsDigit_def CharMatch_e)

text \<open>A sign that no digit follows, at the start of the number.\<close>

lemma ScanNumber_lone_sign:
  assumes here: "drop (lx_itr lx) (lx_text lx) = s # rest"
    and s: "CharIsSign s"
    and rest: "rest = [] \<or> \<not> CharIsDigit (hd rest)"
  shows "ScanNumber lx = (PushToken_value lx kError (lx_itr lx) ''Malformed number.'', False)"
proof -
  note at = at_char [OF here]
  have next_no_digit: "IsEnd_at lx 1 \<or> \<not> CharIsDigit (GetChar_at lx 1)"
    using rest at(4,5) by auto
  have "ScanNumber_loop lx (lx_itr lx) False False = (lx, True)"
    using at(1,2) sign_not_special [OF s] s next_no_digit
    by (subst ScanNumber_loop.simps) (auto simp: GetPosition_def)
  then show ?thesis by (simp add: ScanNumber_def GetPosition_def)
qed

text \<open>Digits, then a dot that no digit follows: the number ends before the dot.\<close>

lemma ScanNumber_dangling_dot:
  assumes here: "drop (lx_itr lx) (lx_text lx) = ds @ CHR ''.'' # rest"
    and ds: "ds \<noteq> []" "\<forall>d \<in> set ds. CharIsDigit d"
    and rest: "rest = [] \<or> \<not> CharIsDigit (hd rest)"
  shows "ScanNumber lx
         = (PushToken_value (lx\<lparr>lx_itr := lx_itr lx + length ds\<rparr>) kNumber (lx_itr lx) ds, True)"
proof -
  let ?lx = "lx\<lparr>lx_itr := lx_itr lx + length ds\<rparr>"
  from here have dot: "drop (lx_itr ?lx) (lx_text ?lx) = CHR ''.'' # rest"
    by (simp add: add.commute [of "lx_itr lx"] drop_drop [symmetric])
  note at = at_char [OF dot]
  have next_no_digit: "IsEnd_at ?lx 1 \<or> \<not> CharIsDigit (GetChar_at ?lx 1)"
    using rest at(4,5) by auto
  have stop: "ScanNumber_loop ?lx (lx_itr lx) False False = (?lx, False)"
    using at(1,2) next_no_digit
    by (subst ScanNumber_loop.simps) (auto simp: CharIsDigit_def)
  from ScanNumber_loop_digits [OF here ds(2)] stop
  have "ScanNumber_loop lx (lx_itr lx) False False = (?lx, False)" by simp
  moreover have "GetSubstr ?lx (lx_itr lx) (lx_itr lx + length ds) = ds"
    using here ds(1) by (simp add: GetSubstr_def)
  ultimately show ?thesis
    by (simp add: ScanNumber_def GetPosition_def PushToken_def Let_def)
qed

text \<open>Digits, then an \<open>e\<close> that neither a digit nor a sign follows: the number ends before it.\<close>

lemma ScanNumber_dangling_exponent:
  assumes here: "drop (lx_itr lx) (lx_text lx) = ds @ e # rest"
    and ds: "ds \<noteq> []" "\<forall>d \<in> set ds. CharIsDigit d"
    and e: "CharMatch e CHR ''e''"
    and rest: "rest = [] \<or> (\<not> CharIsDigit (hd rest) \<and> \<not> CharIsSign (hd rest))"
  shows "ScanNumber lx
         = (PushToken_value (lx\<lparr>lx_itr := lx_itr lx + length ds\<rparr>) kNumber (lx_itr lx) ds, True)"
proof -
  let ?lx = "lx\<lparr>lx_itr := lx_itr lx + length ds\<rparr>"
  from here have ex: "drop (lx_itr ?lx) (lx_text ?lx) = e # rest"
    by (simp add: add.commute [of "lx_itr lx"] drop_drop [symmetric])
  note at = at_char [OF ex]
  have next_invalid: "IsEnd_at ?lx 1
      \<or> (\<not> CharIsDigit (GetChar_at ?lx 1) \<and> \<not> CharIsSign (GetChar_at ?lx 1))"
    using rest at(4,5) by auto
  from ds(1) have "GetPosition ?lx \<noteq> lx_itr lx" by (simp add: GetPosition_def)
  then have stop: "ScanNumber_loop ?lx (lx_itr lx) False False = (?lx, False)"
    using at(1,2) next_invalid e e_not_special [OF e]
    by (subst ScanNumber_loop.simps) auto
  from ScanNumber_loop_digits [OF here ds(2)] stop
  have "ScanNumber_loop lx (lx_itr lx) False False = (?lx, False)" by simp
  moreover have "GetSubstr ?lx (lx_itr lx) (lx_itr lx + length ds) = ds"
    using here ds(1) by (simp add: GetSubstr_def)
  ultimately show ?thesis
    by (simp add: ScanNumber_def GetPosition_def PushToken_def Let_def)
qed


lemma ScanNumber_examples:
  "ScanNumber (base_lexer ''12.'')
   = (PushToken_value ((base_lexer ''12.'')\<lparr>lx_itr := 2\<rparr>) kNumber 0 ''12'', True)"
  "ScanNumber (base_lexer ''12e'')
   = (PushToken_value ((base_lexer ''12e'')\<lparr>lx_itr := 2\<rparr>) kNumber 0 ''12'', True)"
  "ScanNumber (base_lexer ''+'')
   = (PushToken_value (base_lexer ''+'') kError 0 ''Malformed number.'', False)"
  by code_simp+

text \<open>
  C6. The claim: on a dangling dot, a dangling exponent or a lone sign
  \<open>Lexer::ScanNumber\<close> pushes an error token, not a number token. On \<open>12.\<close> and
  on \<open>12e\<close> the scanner pushes the number token \<open>12\<close> and returns true: it treats
  the dot, or the \<open>e\<close>, as the end of the number.
\<close>

theorem ScanNumber_dangling_counterexample:
  "lx_tokens (fst (ScanNumber (base_lexer ''12.'')))
     = [\<lparr>tk_type = kNumber, tk_start = 0, tk_value = ''12''\<rparr>] \<and>
   snd (ScanNumber (base_lexer ''12.'')) = True \<and>
   lx_tokens (fst (ScanNumber (base_lexer ''12e'')))
     = [\<lparr>tk_type = kNumber, tk_start = 0, tk_value = ''12''\<rparr>] \<and>
   snd (ScanNumber (base_lexer ''12e'')) = True"
  by (simp add: ScanNumber_examples PushToken_value_def) (simp add: base_lexer_def)

text \<open>
  C6, amended. On a lone sign (a sign that no digit follows) \<open>Lexer::ScanNumber\<close>
  pushes an error token and returns false. On digits followed by a dot that no digit
  follows, and on digits followed by an \<open>e\<close> that neither a digit nor a sign
  follows, it pushes a number token holding the digits, stops in front of the dot or
  the \<open>e\<close>, and returns true.
\<close>

theorem ScanNumber_malformed:
  "(drop (lx_itr lx) (lx_text lx) = s # rest \<and> CharIsSign s
      \<and> (rest = [] \<or> \<not> CharIsDigit (hd rest)) \<longrightarrow>
    ScanNumber lx = (PushToken_value lx kError (lx_itr lx) ''Malformed number.'', False))
   \<and>
   (drop (lx_itr lx) (lx_text lx) = ds @ CHR ''.'' # rest \<and> ds \<noteq> [] \<and> (\<forall>d \<in> set ds. CharIsDigit d)
      \<and> (rest = [] \<or> \<not> CharIsDigit (hd rest)) \<longrightarrow>
    ScanNumber lx
    = (PushToken_value (lx\<lparr>lx_itr := lx_itr lx + length ds\<rparr>) kNumber (lx_itr lx) ds, True))
   \<and>
   (drop (lx_itr lx) (lx_text lx) = ds @ e # rest \<and> ds \<noteq> [] \<and> (\<forall>d \<in> set ds. CharIsDigit d)
      \<and> CharMatch e CHR ''e''
      \<and> (rest = [] \<or> (\<not> CharIsDigit (hd rest) \<and> \<not> CharIsSign (hd rest))) \<longrightarrow>
    ScanNumber lx
    = (PushToken_value (lx\<lparr>lx_itr := lx_itr lx + length ds\<rparr>) kNumber (lx_itr lx) ds, True))"
  using ScanNumber_lone_sign [of lx s rest] ScanNumber_dangling_dot [of lx ds rest]
    ScanNumber_dangling_exponent [of lx ds e rest]
  by blast

theorem ScanNumber_malformed_witness:
  "ScanNumber (base_lexer ''+'')
     = (PushToken_value (base_lexer ''+'') kError 0 ''Malformed number.'', False) \<and>
   ScanNumber (base_lexer ''12.'')
     = (PushToken_value ((base_lexer ''12.'')\<lparr>lx_itr := 2\<rparr>) kNumber 0 ''12'', True) \<and>
   ScanNumber (base_lexer ''12e'')
     = (PushToken_value ((base_lexer ''12e'')\<lparr>lx_itr := 2\<rparr>) kNumber 0 ''12'', True)"
proof -
  have sign: "ScanNumber (base_lexer ''+'')
     = (PushToken_value (base_lexer ''+'') kError 0 ''Malformed number.'', False)"
    using ScanNumber_malformed [of "base_lexer ''+''" "CHR ''+''" "[]" "''12''" "CHR ''e''"]
    by (simp add: base_lexer_def CharIsSign_def)
  have dot: "ScanNumber (base_lexer ''12.'')
     = (PushToken_value ((base_lexer ''12.'')\<lparr>lx_itr := 2\<rparr>) kNumber 0 ''12'', True)"
    using ScanNumber_malformed [of "base_lexer ''12.''" "CHR ''+''" "[]" "''12''" "CHR ''e''"]
    by (simp add: base_lexer_def CharIsDigit_def numeral_2_eq_2)
  have exp: "ScanNumber (base_lexer ''12e'')
     = (PushToken_value ((base_lexer ''12e'')\<lparr>lx_itr := 2\<rparr>) kNumber 0 ''12'', True)"
    using ScanNumber_malformed [of "base_lexer ''12e''" "CHR ''+''" "[]" "''12''" "CHR ''e''"]
    by (simp add: base_lexer_def CharIsDigit_def CharMatch_e numeral_2_eq_2)
  from sign dot exp show ?thesis by (simp only: simp_thms)
qed

subsection \<open>Bracket validation\<close>

text \<open>A token list without a closing bracket token passes the check, whatever it opens.\<close>

lemma ValidateBrackets_loop_no_closing:
  "\<forall>t \<in> set ts. IsBracket t \<longrightarrow> first_char (tk_value t) \<notin> {CHR '')'', CHR '']'', CHR ''}'', CHR ''>''} \<Longrightarrow>
   ValidateBrackets_loop stk ts"
  by (induction ts arbitrary: stk) (simp_all add: Let_def)

text \<open>
  C2. The claim: whenever some opening bracket token has no matching closing bracket
  token, as in the tokens of \<open>(A,B;\<close>, \<open>Lexer::ValidateBrackets\<close> returns false.
  A \<open>NewickLexer\<close> turns \<open>(A,B;\<close> into the five tokens of \<open>tokens_A_B\<close>, and
  the function returns true on them: its loop ends with \<open>return true\<close> without
  looking at the stack.
\<close>

theorem ValidateBrackets_unclosed:
  "map_option (map_sum id (\<lambda>p. (lx_tokens (fst p), snd p)))
     (ProcessString example_deescape StringReplaceAll_char newick_lexer ''(A,B;'' False)
   = Some (Inr (tokens_A_B, True))
   \<and> ValidateBrackets tokens_A_B = True"
proof (intro conjI)
  show "map_option (map_sum id (\<lambda>p. (lx_tokens (fst p), snd p)))
     (ProcessString example_deescape StringReplaceAll_char newick_lexer ''(A,B;'' False)
   = Some (Inr (tokens_A_B, True))"
    by (rule newick_tokens_A_B)
  show "ValidateBrackets tokens_A_B = True"
    by (simp add: ValidateBrackets_def tokens_A_B_def IsBracket_def first_char_def)
qed

end
